theory Spec2Isabelle
  imports Main "HOL-Library.Sublist"
begin

section \<open>Data model of \<open>main.go\<close>\<close>

text \<open>
  A connection is a \<^verbatim>\<open>*websocket.Conn\<close>: the program only compares such pointers and uses
  them as map keys, so a connection is its identity. A message is a \<^verbatim>\<open>[]byte\<close>.
\<close>

type_synonym conn = nat
type_synonym bytes = string

text \<open>The message types of the websocket library that \<^verbatim>\<open>WriteMessage\<close> and
  \<^verbatim>\<open>ReadMessage\<close> exchange.\<close>

datatype msgtype = TextMessage | BinaryMessage | CloseMessage | PingMessage | PongMessage

text \<open>The function that issues a library call; \<^verbatim>\<open>handleBroadcast\<close> carries the
  \<^verbatim>\<open>sender\<close> of the envelope it is delivering.\<close>

datatype caller = WsHandler | HandleBroadcast conn | KeepAlive

text \<open>One call \<^verbatim>\<open>c.WriteMessage(t, data)\<close>, with whether it returned a nil error.\<close>

datatype wcall = WriteMessage (w_conn: conn) (w_type: msgtype) (w_data: bytes)
  (w_ok: bool) (w_by: caller)

text \<open>Control points of one \<^verbatim>\<open>wsHandler\<close> invocation (lines 31-71), of the loop of
  \<^verbatim>\<open>handleBroadcast\<close> (lines 74-93) and of the loop of \<^verbatim>\<open>keepAlive\<close> (lines 96-112).\<close>

datatype hpc =
    NotStarted            \<comment> \<open>no handler runs for this connection yet\<close>
  | AtRegister            \<comment> \<open>upgraded, cleanup deferred; before line 47\<close>
  | AtWelcome             \<comment> \<open>before line 53\<close>
  | AtRead                \<comment> \<open>before line 60\<close>
  | AtSend bytes          \<comment> \<open>blocked in the channel send of line 66\<close>
  | AtDeferDelete         \<comment> \<open>deferred function, before line 39\<close>
  | AtDeferClose          \<comment> \<open>deferred function, before line 42\<close>
  | Returned

datatype bpc =
    BRecv                     \<comment> \<open>blocked in the channel receive of line 77\<close>
  | BLock conn bytes          \<comment> \<open>holds \<open>sender\<close>, \<open>message\<close>; before line 81\<close>
  | BRange conn bytes "conn list"  \<comment> \<open>in the loop of line 82, keys still to come\<close>

datatype kpc =
    KTick                     \<comment> \<open>blocked on the ticker, line 101\<close>
  | KLock                     \<comment> \<open>before line 102\<close>
  | KRange "conn list"        \<comment> \<open>in the loop of line 103\<close>

text \<open>
  The global variables \<open>clients\<close> and \<open>mutex\<close>, the control point of every goroutine,
  and the calls made so far on the connections: every \<^verbatim>\<open>WriteMessage\<close>, every
  \<^verbatim>\<open>Close\<close> and the message of every successful \<^verbatim>\<open>ReadMessage\<close> (line 60 drops the
  message type), in the order they happened.
  The channel \<open>broadcast\<close> is unbuffered, so it holds nothing between steps.
\<close>

record server =
  clients :: "conn \<rightharpoonup> bool"
  mutex :: bool
  wsHandler_pc :: "conn \<Rightarrow> hpc"
  handleBroadcast_pc :: bpc
  keepAlive_pc :: kpc
  writes :: "wcall list"
  closes :: "(conn \<times> caller) list"
  reads :: "(conn \<times> bytes) list"

definition init_server :: server where
  "init_server = \<lparr> clients = Map.empty, mutex = False, wsHandler_pc = (\<lambda>_. NotStarted),
     handleBroadcast_pc = BRecv, keepAlive_pc = KTick, writes = [], closes = [], reads = [] \<rparr>"

section \<open>The registry\<close>

text \<open>\<^verbatim>\<open>clients[conn] = true\<close> (line 48) and \<^verbatim>\<open>delete(clients, conn)\<close>
  (lines 40, 87, 107).\<close>

definition clients_add :: "conn \<Rightarrow> (conn \<rightharpoonup> bool) \<Rightarrow> (conn \<rightharpoonup> bool)" where
  "clients_add c m = m(c \<mapsto> True)"

definition clients_delete :: "conn \<Rightarrow> (conn \<rightharpoonup> bool) \<Rightarrow> (conn \<rightharpoonup> bool)" where
  "clients_delete c m = m(c := None)"

text \<open>
  \<^verbatim>\<open>for client := range clients\<close> yields every key once, in an order the language
  leaves open; a key deleted before it is reached is not produced. The order is a list
  \<open>ks\<close> of the keys at loop entry, and the loops below skip a key that is gone.
\<close>

definition range_order :: "(conn \<rightharpoonup> bool) \<Rightarrow> conn list \<Rightarrow> bool" where
  "range_order m ks \<longleftrightarrow> distinct ks \<and> set ks = dom m"

section \<open>\<open>handleBroadcast\<close>\<close>

text \<open>The body of the loop of line 82 for one \<open>client\<close>; \<open>ok\<close> is whether the write of
  line 84 succeeds.\<close>

definition broadcast_client :: "conn \<Rightarrow> bytes \<Rightarrow> conn \<Rightarrow> bool \<Rightarrow> server \<Rightarrow> server" where
  "broadcast_client sender message client ok s =
     (if client \<noteq> sender then
        (if ok then
           s\<lparr>writes := writes s @ [WriteMessage client TextMessage message True (HandleBroadcast sender)]\<rparr>
         else
           s\<lparr>writes := writes s @ [WriteMessage client TextMessage message False (HandleBroadcast sender)],
             closes := closes s @ [(client, HandleBroadcast sender)],
             clients := clients_delete client (clients s)\<rparr>)
      else s)"

fun broadcast_range :: "(conn \<Rightarrow> bool) \<Rightarrow> conn \<Rightarrow> bytes \<Rightarrow> conn list \<Rightarrow> server \<Rightarrow> server" where
  "broadcast_range wok sender message [] s = s"
| "broadcast_range wok sender message (client # ks) s =
     (if client \<in> dom (clients s)
      then broadcast_range wok sender message ks (broadcast_client sender message client (wok client) s)
      else broadcast_range wok sender message ks s)"

text \<open>One turn of the loop of line 75 once the envelope is received: lock, range, unlock.
  \<open>wok c\<close> says whether a write to \<open>c\<close> succeeds, \<open>ks\<close> is the order of the range.\<close>

definition handleBroadcast :: "(conn \<Rightarrow> bool) \<Rightarrow> conn list \<Rightarrow> conn \<Rightarrow> bytes \<Rightarrow> server \<Rightarrow> server" where
  "handleBroadcast wok ks sender message s =
     (broadcast_range wok sender message ks (s\<lparr>mutex := True\<rparr>))\<lparr>mutex := False\<rparr>"

section \<open>\<open>keepAlive\<close>\<close>

definition keepAlive_client :: "conn \<Rightarrow> bool \<Rightarrow> server \<Rightarrow> server" where
  "keepAlive_client client ok s =
     (if ok then
        s\<lparr>writes := writes s @ [WriteMessage client PingMessage [] True KeepAlive]\<rparr>
      else
        s\<lparr>writes := writes s @ [WriteMessage client PingMessage [] False KeepAlive],
          closes := closes s @ [(client, KeepAlive)],
          clients := clients_delete client (clients s)\<rparr>)"

fun keepAlive_range :: "(conn \<Rightarrow> bool) \<Rightarrow> conn list \<Rightarrow> server \<Rightarrow> server" where
  "keepAlive_range wok [] s = s"
| "keepAlive_range wok (client # ks) s =
     (if client \<in> dom (clients s)
      then keepAlive_range wok ks (keepAlive_client client (wok client) s)
      else keepAlive_range wok ks s)"

text \<open>One turn of the loop of line 100 once the ticker has fired.\<close>

definition keepAlive :: "(conn \<Rightarrow> bool) \<Rightarrow> conn list \<Rightarrow> server \<Rightarrow> server" where
  "keepAlive wok ks s = (keepAlive_range wok ks (s\<lparr>mutex := True\<rparr>))\<lparr>mutex := False\<rparr>"

text \<open>The period of the ticker of line 97, \<^verbatim>\<open>30 * time.Second\<close>, in nanoseconds
  (\<^verbatim>\<open>time.Duration\<close> counts nanoseconds).\<close>

definition Second :: int where
  "Second = 1000000000"

definition keepAlive_period :: int where
  "keepAlive_period = 30 * Second"

text \<open>The calls a run adds to the log of writes.\<close>

definition new_writes :: "server \<Rightarrow> server \<Rightarrow> wcall list" where
  "new_writes s s' = drop (length (writes s)) (writes s')"

definition new_closes :: "server \<Rightarrow> server \<Rightarrow> (conn \<times> caller) list" where
  "new_closes s s' = drop (length (closes s)) (closes s')"

text \<open>The payloads a connection was sent successfully, in order.\<close>

definition received :: "wcall list \<Rightarrow> conn \<Rightarrow> bytes list" where
  "received ws c = map w_data (filter (\<lambda>w. w_conn w = c \<and> w_ok w) ws)"

section \<open>The goroutines, step by step\<close>

text \<open>The payload of line 53.\<close>

definition welcome_message :: bytes where
  "welcome_message = ''Welcome to the WebSocket server!''"

text \<open>
  What can happen next in the running server. An event names the goroutine that moves and
  carries what the world decides: the fresh connection of an upgrade, whether a write
  succeeds, what a read returns (\<open>None\<close> for an error), the order of a range.
  \<open>Send c\<close> is the meeting on the unbuffered channel \<open>broadcast\<close> of the handler of \<open>c\<close>,
  blocked at line 66, with \<open>handleBroadcast\<close>, blocked at line 77.
\<close>

datatype event =
    Upgrade conn
  | UpgradeError
  | Register conn
  | Welcome conn bool
  | Read conn "(msgtype \<times> bytes) option"
  | Send conn
  | DeferDelete conn
  | DeferClose conn
  | BroadcastLock "conn list"
  | BroadcastClient bool
  | BroadcastUnlock
  | Tick
  | KeepAliveLock "conn list"
  | KeepAliveClient bool
  | KeepAliveUnlock

text \<open>
  One step; \<open>None\<close> when the goroutine is not at that point or must wait (for the mutex,
  for its partner on the channel). A handler is started once per connection, since every
  upgrade returns a new pointer. The three statements lock, update, unlock of lines 47-49
  and of lines 39-41 are one step each: nothing else can touch \<open>clients\<close> in between.
  Logging is left out.
\<close>

fun step :: "server \<Rightarrow> event \<Rightarrow> server option" where
  "step s (Upgrade c) =
     (if wsHandler_pc s c = NotStarted
      then Some (s\<lparr>wsHandler_pc := (wsHandler_pc s)(c := AtRegister)\<rparr>)
      else None)"
| "step s UpgradeError = Some s"
| "step s (Register c) =
     (if wsHandler_pc s c = AtRegister \<and> \<not> mutex s
      then Some (s\<lparr>clients := clients_add c (clients s),
                   wsHandler_pc := (wsHandler_pc s)(c := AtWelcome)\<rparr>)
      else None)"
| "step s (Welcome c ok) =
     (if wsHandler_pc s c = AtWelcome
      then Some (s\<lparr>writes := writes s @ [WriteMessage c TextMessage welcome_message ok WsHandler],
                   wsHandler_pc := (wsHandler_pc s)(c := (if ok then AtRead else AtDeferDelete))\<rparr>)
      else None)"
| "step s (Read c r) =
     (if wsHandler_pc s c = AtRead
      then (case r of
              None \<Rightarrow> Some (s\<lparr>wsHandler_pc := (wsHandler_pc s)(c := AtDeferDelete)\<rparr>)
            | Some (t, message) \<Rightarrow>
                Some (s\<lparr>reads := reads s @ [(c, message)],
                         wsHandler_pc := (wsHandler_pc s)(c := AtSend message)\<rparr>))
      else None)"
| "step s (Send c) =
     (case wsHandler_pc s c of
        AtSend message \<Rightarrow>
          (if handleBroadcast_pc s = BRecv
           then Some (s\<lparr>wsHandler_pc := (wsHandler_pc s)(c := AtRead),
                        handleBroadcast_pc := BLock c message\<rparr>)
           else None)
      | _ \<Rightarrow> None)"
| "step s (DeferDelete c) =
     (if wsHandler_pc s c = AtDeferDelete \<and> \<not> mutex s
      then Some (s\<lparr>clients := clients_delete c (clients s),
                   wsHandler_pc := (wsHandler_pc s)(c := AtDeferClose)\<rparr>)
      else None)"
| "step s (DeferClose c) =
     (if wsHandler_pc s c = AtDeferClose
      then Some (s\<lparr>closes := closes s @ [(c, WsHandler)],
                   wsHandler_pc := (wsHandler_pc s)(c := Returned)\<rparr>)
      else None)"
| "step s (BroadcastLock ks) =
     (case handleBroadcast_pc s of
        BLock sender message \<Rightarrow>
          (if \<not> mutex s \<and> range_order (clients s) ks
           then Some (s\<lparr>mutex := True, handleBroadcast_pc := BRange sender message ks\<rparr>)
           else None)
      | _ \<Rightarrow> None)"
| "step s (BroadcastClient ok) =
     (case handleBroadcast_pc s of
        BRange sender message (client # ks) \<Rightarrow>
          Some ((if client \<in> dom (clients s) then broadcast_client sender message client ok s else s)
                  \<lparr>handleBroadcast_pc := BRange sender message ks\<rparr>)
      | _ \<Rightarrow> None)"
| "step s BroadcastUnlock =
     (case handleBroadcast_pc s of
        BRange sender message [] \<Rightarrow> Some (s\<lparr>mutex := False, handleBroadcast_pc := BRecv\<rparr>)
      | _ \<Rightarrow> None)"
| "step s Tick =
     (if keepAlive_pc s = KTick then Some (s\<lparr>keepAlive_pc := KLock\<rparr>) else None)"
| "step s (KeepAliveLock ks) =
     (if keepAlive_pc s = KLock \<and> \<not> mutex s \<and> range_order (clients s) ks
      then Some (s\<lparr>mutex := True, keepAlive_pc := KRange ks\<rparr>)
      else None)"
| "step s (KeepAliveClient ok) =
     (case keepAlive_pc s of
        KRange (client # ks) \<Rightarrow>
          Some ((if client \<in> dom (clients s) then keepAlive_client client ok s else s)
                  \<lparr>keepAlive_pc := KRange ks\<rparr>)
      | _ \<Rightarrow> None)"
| "step s KeepAliveUnlock =
     (case keepAlive_pc s of
        KRange [] \<Rightarrow> Some (s\<lparr>mutex := False, keepAlive_pc := KTick\<rparr>)
      | _ \<Rightarrow> None)"

fun run :: "server \<Rightarrow> event list \<Rightarrow> server option" where
  "run s [] = Some s"
| "run s (e # es) = (case step s e of None \<Rightarrow> None | Some s' \<Rightarrow> run s' es)"

inductive reachable :: "server \<Rightarrow> bool" where
  reach_init: "reachable init_server"
| reach_step: "reachable s \<Longrightarrow> step s e = Some s' \<Longrightarrow> reachable s'"

text \<open>Who has called \<^verbatim>\<open>Close\<close> on a connection, in order.\<close>

definition close_calls :: "server \<Rightarrow> conn \<Rightarrow> caller list" where
  "close_calls s c = map snd (filter (\<lambda>x. fst x = c) (closes s))"

definition close_calls_after :: "event list \<Rightarrow> conn \<Rightarrow> caller list option" where
  "close_calls_after es c = map_option (\<lambda>s. close_calls s c) (run init_server es)"

text \<open>The writes that the handler of a connection has made on it.\<close>

definition welcomes :: "server \<Rightarrow> conn \<Rightarrow> wcall list" where
  "welcomes s c = filter (\<lambda>w. w_conn w = c \<and> w_by w = WsHandler) (writes s)"

text \<open>The messages read from \<open>a\<close>, and those of them that \<open>handleBroadcast\<close> has written to
  \<open>r\<close> with success, in order.\<close>

definition read_from :: "server \<Rightarrow> conn \<Rightarrow> bytes list" where
  "read_from s a = map snd (filter (\<lambda>x. fst x = a) (reads s))"

definition delivered :: "server \<Rightarrow> conn \<Rightarrow> conn \<Rightarrow> bytes list" where
  "delivered s a r =
     map w_data (filter (\<lambda>w. w_conn w = r \<and> w_ok w \<and> w_by w = HandleBroadcast a) (writes s))"

text \<open>A registry of three connections, as in the scenario of the specification, and one
  of four: a sender and the three recipients of the fault-isolation scenario.\<close>

definition three_clients :: server where
  "three_clients = init_server\<lparr>clients := [1 \<mapsto> True, 2 \<mapsto> True, 3 \<mapsto> True]\<rparr>"

definition four_clients :: server where
  "four_clients = init_server\<lparr>clients := [1 \<mapsto> True, 2 \<mapsto> True, 3 \<mapsto> True, 4 \<mapsto> True]\<rparr>"

section \<open>Example runs\<close>

text \<open>The state that a run from the initial state ends in (the initial state if some event
  of the run cannot happen).\<close>

definition state_after :: "event list \<Rightarrow> server" where
  "state_after es = (case run init_server es of Some s \<Rightarrow> s | None \<Rightarrow> init_server)"

text \<open>
  Two clients connect, client 1 sends a message, the write to client 2 fails, so
  \<open>handleBroadcast\<close> closes and deletes client 2 (lines 86-87); then the read of client 2's
  handler fails and its deferred function deletes and closes again (lines 40-42).
\<close>

definition double_close_run :: "event list" where
  "double_close_run =
     [Upgrade 1, Register 1, Welcome 1 True, Upgrade 2, Register 2, Welcome 2 True,
      Read 1 (Some (TextMessage, ''hello'')), Send 1,
      BroadcastLock [1, 2], BroadcastClient True, BroadcastClient False, BroadcastUnlock,
      Read 2 None, DeferDelete 2, DeferClose 2]"

text \<open>Client 1 sends \<open>a\<close> then \<open>b\<close>; its handler reads \<open>b\<close> while \<open>a\<close> is still being
  delivered. Client 2 receives both.\<close>

definition two_messages_run :: "event list" where
  "two_messages_run =
     [Upgrade 1, Register 1, Welcome 1 True, Upgrade 2, Register 2, Welcome 2 True,
      Read 1 (Some (TextMessage, ''a'')), Send 1, Read 1 (Some (TextMessage, ''b'')),
      BroadcastLock [2, 1], BroadcastClient True, BroadcastClient True, BroadcastUnlock,
      Send 1,
      BroadcastLock [1, 2], BroadcastClient True, BroadcastClient True, BroadcastUnlock]"

text \<open>Client 1 sends a binary frame.\<close>

definition binary_run :: "event list" where
  "binary_run =
     [Upgrade 1, Register 1, Welcome 1 True, Upgrade 2, Register 2, Welcome 2 True,
      Read 1 (Some (BinaryMessage, ''x'')), Send 1,
      BroadcastLock [1, 2], BroadcastClient True, BroadcastClient True, BroadcastUnlock]"

text \<open>The welcome write of client 1 fails.\<close>

definition welcome_failure_run :: "event list" where
  "welcome_failure_run = [Upgrade 1, Register 1, Welcome 1 False, DeferDelete 1, DeferClose 1]"

section \<open>Invariants of the running server\<close>

text \<open>
  Closing and deregistration of one connection \<open>c\<close>: before its handler has registered it,
  \<open>c\<close> is not in \<open>clients\<close> and nobody has closed it; while it is in \<open>clients\<close> nobody has
  closed it; once its handler is past line 40 it is not in \<open>clients\<close>; its handler has
  closed it exactly when the handler has returned; the two loops have closed it at most once.
\<close>

definition cleanup_inv :: "server \<Rightarrow> conn \<Rightarrow> bool" where
  "cleanup_inv s c \<longleftrightarrow>
     (wsHandler_pc s c = NotStarted \<or> wsHandler_pc s c = AtRegister \<longrightarrow>
        clients s c = None \<and> close_calls s c = [])
   \<and> (clients s c \<noteq> None \<longrightarrow> close_calls s c = [])
   \<and> (wsHandler_pc s c = AtDeferClose \<or> wsHandler_pc s c = Returned \<longrightarrow> clients s c = None)
   \<and> filter (\<lambda>b. b = WsHandler) (close_calls s c) =
        (if wsHandler_pc s c = Returned then [WsHandler] else [])
   \<and> tl (filter (\<lambda>b. b \<noteq> WsHandler) (close_calls s c)) = []"

text \<open>
  The path of the messages of one sender \<open>a\<close>: what was read from \<open>a\<close> is what has left
  \<open>handleBroadcast\<close> (\<open>done\<close>), then the message \<open>handleBroadcast\<close> holds if it is of \<open>a\<close>,
  then the message the handler of \<open>a\<close> is blocked sending. What recipient \<open>r\<close> was delivered
  of \<open>a\<close> is a subsequence of \<open>done\<close>, or of \<open>done\<close> and the message being ranged over once
  the range is past \<open>r\<close>.
\<close>

definition in_send :: "server \<Rightarrow> conn \<Rightarrow> bytes list" where
  "in_send s a = (case wsHandler_pc s a of AtSend message \<Rightarrow> [message] | _ \<Rightarrow> [])"

definition in_broadcast :: "server \<Rightarrow> conn \<Rightarrow> bytes list" where
  "in_broadcast s a =
     (case handleBroadcast_pc s of
        BRecv \<Rightarrow> []
      | BLock sender message \<Rightarrow> if sender = a then [message] else []
      | BRange sender message ks \<Rightarrow> if sender = a then [message] else [])"

definition order_cond :: "bpc \<Rightarrow> conn \<Rightarrow> conn \<Rightarrow> bytes list \<Rightarrow> bytes list \<Rightarrow> bool" where
  "order_cond p a r ds done =
     (case p of
        BRange sender message ks \<Rightarrow>
          distinct ks \<and>
          (if sender = a
           then subseq ds (done @ [message]) \<and> (r \<in> set ks \<longrightarrow> subseq ds done)
           else subseq ds done)
      | _ \<Rightarrow> subseq ds done)"

definition order_inv :: "server \<Rightarrow> conn \<Rightarrow> conn \<Rightarrow> bool" where
  "order_inv s a r \<longleftrightarrow>
     (\<exists>done. read_from s a = done @ in_broadcast s a @ in_send s a
        \<and> order_cond (handleBroadcast_pc s) a r (delivered s a r) done)"

text \<open>
  The handler of \<open>c\<close>: before line 53 it has written nothing to \<open>c\<close> and read nothing; after
  it, it has made one write, of the welcome message as text, which succeeded if the handler
  is in its read loop; if that write failed nothing is ever read from \<open>c\<close>.
\<close>

definition handler_inv :: "server \<Rightarrow> conn \<Rightarrow> bool" where
  "handler_inv s c \<longleftrightarrow>
     (case wsHandler_pc s c of
        NotStarted \<Rightarrow> welcomes s c = [] \<and> read_from s c = []
      | AtRegister \<Rightarrow> welcomes s c = [] \<and> read_from s c = []
      | AtWelcome \<Rightarrow> welcomes s c = [] \<and> read_from s c = []
      | AtRead \<Rightarrow> welcomes s c = [WriteMessage c TextMessage welcome_message True WsHandler]
      | AtSend message \<Rightarrow>
          welcomes s c = [WriteMessage c TextMessage welcome_message True WsHandler]
      | _ \<Rightarrow> welcomes s c = [WriteMessage c TextMessage welcome_message True WsHandler]
             \<or> welcomes s c = [WriteMessage c TextMessage welcome_message False WsHandler]
               \<and> read_from s c = [])"

text \<open>What each call site writes: the handler the welcome message as text,
  \<open>handleBroadcast\<close> text to a connection other than the sender, \<open>keepAlive\<close> an empty
  ping.\<close>

definition write_ok :: "wcall \<Rightarrow> bool" where
  "write_ok w =
     (case w_by w of
        WsHandler \<Rightarrow> w_type w = TextMessage \<and> w_data w = welcome_message
      | HandleBroadcast a \<Rightarrow> w_type w = TextMessage \<and> w_conn w \<noteq> a
      | KeepAlive \<Rightarrow> w_type w = PingMessage \<and> w_data w = [])"

section \<open>What one range does\<close>

lemma count_list_distinct:
  "distinct xs \<Longrightarrow> count_list xs x = (if x \<in> set xs then 1 else 0)"
  by (induction xs) auto

lemma broadcast_range_writes:
  "distinct ks \<Longrightarrow> set ks \<subseteq> dom (clients s) \<Longrightarrow>
   writes (broadcast_range wok sender message ks s) =
     writes s @ map (\<lambda>c. WriteMessage c TextMessage message (wok c) (HandleBroadcast sender))
       (filter (\<lambda>c. c \<noteq> sender) ks)"
proof (induction ks arbitrary: s)
  case Nil
  show ?case by simp
next
  case (Cons c ks)
  let ?s = "broadcast_client sender message c (wok c) s"
  have "distinct ks" using Cons.prems by simp
  moreover have "set ks \<subseteq> dom (clients ?s)"
    using Cons.prems by (auto simp: broadcast_client_def clients_delete_def)
  ultimately have "writes (broadcast_range wok sender message ks ?s) =
     writes ?s @ map (\<lambda>c. WriteMessage c TextMessage message (wok c) (HandleBroadcast sender))
       (filter (\<lambda>c. c \<noteq> sender) ks)"
    by (rule Cons.IH)
  moreover have "c \<in> dom (clients s)" using Cons.prems by simp
  ultimately show ?case
    by (simp add: broadcast_client_def)
qed

lemma broadcast_range_clients:
  "distinct ks \<Longrightarrow> set ks \<subseteq> dom (clients s) \<Longrightarrow>
   clients (broadcast_range wok sender message ks s) =
     (\<lambda>c. if c \<in> set ks \<and> c \<noteq> sender \<and> \<not> wok c then None else clients s c)"
proof (induction ks arbitrary: s)
  case Nil
  show ?case by simp
next
  case (Cons c ks)
  let ?s = "broadcast_client sender message c (wok c) s"
  have "distinct ks" using Cons.prems by simp
  moreover have "set ks \<subseteq> dom (clients ?s)"
    using Cons.prems by (auto simp: broadcast_client_def clients_delete_def)
  ultimately have "clients (broadcast_range wok sender message ks ?s) =
     (\<lambda>c. if c \<in> set ks \<and> c \<noteq> sender \<and> \<not> wok c then None else clients ?s c)"
    by (rule Cons.IH)
  moreover have "c \<in> dom (clients s)" using Cons.prems by simp
  ultimately show ?case
    by (auto simp: broadcast_client_def clients_delete_def fun_eq_iff)
qed

lemma broadcast_range_closes:
  "distinct ks \<Longrightarrow> set ks \<subseteq> dom (clients s) \<Longrightarrow>
   closes (broadcast_range wok sender message ks s) =
     closes s @ map (\<lambda>c. (c, HandleBroadcast sender))
       (filter (\<lambda>c. c \<noteq> sender \<and> \<not> wok c) ks)"
proof (induction ks arbitrary: s)
  case Nil
  show ?case by simp
next
  case (Cons c ks)
  let ?s = "broadcast_client sender message c (wok c) s"
  have "distinct ks" using Cons.prems by simp
  moreover have "set ks \<subseteq> dom (clients ?s)"
    using Cons.prems by (auto simp: broadcast_client_def clients_delete_def)
  ultimately have "closes (broadcast_range wok sender message ks ?s) =
     closes ?s @ map (\<lambda>c. (c, HandleBroadcast sender))
       (filter (\<lambda>c. c \<noteq> sender \<and> \<not> wok c) ks)"
    by (rule Cons.IH)
  moreover have "c \<in> dom (clients s)" using Cons.prems by simp
  ultimately show ?case
    by (simp add: broadcast_client_def)
qed

lemma keepAlive_range_writes:
  "distinct ks \<Longrightarrow> set ks \<subseteq> dom (clients s) \<Longrightarrow>
   writes (keepAlive_range wok ks s) =
     writes s @ map (\<lambda>c. WriteMessage c PingMessage [] (wok c) KeepAlive) ks"
proof (induction ks arbitrary: s)
  case Nil
  show ?case by simp
next
  case (Cons c ks)
  let ?s = "keepAlive_client c (wok c) s"
  have "distinct ks" using Cons.prems by simp
  moreover have "set ks \<subseteq> dom (clients ?s)"
    using Cons.prems by (auto simp: keepAlive_client_def clients_delete_def)
  ultimately have "writes (keepAlive_range wok ks ?s) =
     writes ?s @ map (\<lambda>c. WriteMessage c PingMessage [] (wok c) KeepAlive) ks"
    by (rule Cons.IH)
  moreover have "c \<in> dom (clients s)" using Cons.prems by simp
  ultimately show ?case
    by (simp add: keepAlive_client_def)
qed

lemma keepAlive_range_clients:
  "distinct ks \<Longrightarrow> set ks \<subseteq> dom (clients s) \<Longrightarrow>
   clients (keepAlive_range wok ks s) =
     (\<lambda>c. if c \<in> set ks \<and> \<not> wok c then None else clients s c)"
proof (induction ks arbitrary: s)
  case Nil
  show ?case by simp
next
  case (Cons c ks)
  let ?s = "keepAlive_client c (wok c) s"
  have "distinct ks" using Cons.prems by simp
  moreover have "set ks \<subseteq> dom (clients ?s)"
    using Cons.prems by (auto simp: keepAlive_client_def clients_delete_def)
  ultimately have "clients (keepAlive_range wok ks ?s) =
     (\<lambda>c. if c \<in> set ks \<and> \<not> wok c then None else clients ?s c)"
    by (rule Cons.IH)
  moreover have "c \<in> dom (clients s)" using Cons.prems by simp
  ultimately show ?case
    by (auto simp: keepAlive_client_def clients_delete_def fun_eq_iff)
qed

lemma keepAlive_range_closes:
  "distinct ks \<Longrightarrow> set ks \<subseteq> dom (clients s) \<Longrightarrow>
   closes (keepAlive_range wok ks s) =
     closes s @ map (\<lambda>c. (c, KeepAlive)) (filter (\<lambda>c. \<not> wok c) ks)"
proof (induction ks arbitrary: s)
  case Nil
  show ?case by simp
next
  case (Cons c ks)
  let ?s = "keepAlive_client c (wok c) s"
  have "distinct ks" using Cons.prems by simp
  moreover have "set ks \<subseteq> dom (clients ?s)"
    using Cons.prems by (auto simp: keepAlive_client_def clients_delete_def)
  ultimately have "closes (keepAlive_range wok ks ?s) =
     closes ?s @ map (\<lambda>c. (c, KeepAlive)) (filter (\<lambda>c. \<not> wok c) ks)"
    by (rule Cons.IH)
  moreover have "c \<in> dom (clients s)" using Cons.prems by simp
  ultimately show ?case
    by (simp add: keepAlive_client_def)
qed

lemma keepAlive_range_reads: "reads (keepAlive_range wok ks s) = reads s"
  by (induction ks arbitrary: s) (simp_all add: keepAlive_client_def)

text \<open>The same facts for a whole turn of each loop.\<close>

lemma handleBroadcast_new_writes:
  assumes "range_order (clients s) ks"
  shows "new_writes s (handleBroadcast wok ks sender message s) =
     map (\<lambda>c. WriteMessage c TextMessage message (wok c) (HandleBroadcast sender))
       (filter (\<lambda>c. c \<noteq> sender) ks)"
  using assms broadcast_range_writes [of ks "s\<lparr>mutex := True\<rparr>" wok sender message]
  by (simp add: handleBroadcast_def new_writes_def range_order_def)

lemma handleBroadcast_new_closes:
  assumes "range_order (clients s) ks"
  shows "new_closes s (handleBroadcast wok ks sender message s) =
     map (\<lambda>c. (c, HandleBroadcast sender)) (filter (\<lambda>c. c \<noteq> sender \<and> \<not> wok c) ks)"
  using assms broadcast_range_closes [of ks "s\<lparr>mutex := True\<rparr>" wok sender message]
  by (simp add: handleBroadcast_def new_closes_def range_order_def)

lemma handleBroadcast_clients:
  assumes "range_order (clients s) ks"
  shows "clients (handleBroadcast wok ks sender message s) =
     (\<lambda>c. if c \<noteq> sender \<and> \<not> wok c then None else clients s c)"
  using assms broadcast_range_clients [of ks "s\<lparr>mutex := True\<rparr>" wok sender message]
  by (auto simp: handleBroadcast_def range_order_def fun_eq_iff)

lemma handleBroadcast_dom:
  assumes "range_order (clients s) ks"
  shows "dom (clients (handleBroadcast wok ks sender message s)) =
     {c \<in> dom (clients s). c = sender \<or> wok c}"
  by (subst handleBroadcast_clients [OF assms]) (auto split: if_splits)

lemma keepAlive_new_writes:
  assumes "range_order (clients s) ks"
  shows "new_writes s (keepAlive wok ks s) =
     map (\<lambda>c. WriteMessage c PingMessage [] (wok c) KeepAlive) ks"
  using assms keepAlive_range_writes [of ks "s\<lparr>mutex := True\<rparr>" wok]
  by (simp add: keepAlive_def new_writes_def range_order_def)

lemma keepAlive_new_closes:
  assumes "range_order (clients s) ks"
  shows "new_closes s (keepAlive wok ks s) =
     map (\<lambda>c. (c, KeepAlive)) (filter (\<lambda>c. \<not> wok c) ks)"
  using assms keepAlive_range_closes [of ks "s\<lparr>mutex := True\<rparr>" wok]
  by (simp add: keepAlive_def new_closes_def range_order_def)

lemma keepAlive_clients:
  assumes "range_order (clients s) ks"
  shows "clients (keepAlive wok ks s) = (\<lambda>c. if wok c then clients s c else None)"
  using assms keepAlive_range_clients [of ks "s\<lparr>mutex := True\<rparr>" wok]
  by (auto simp: keepAlive_def range_order_def fun_eq_iff)

lemma received_map_filter:
  "distinct ks \<Longrightarrow>
   received (map (\<lambda>c. WriteMessage c t message (wok c) b) (filter P ks)) c =
     (if c \<in> set ks \<and> P c \<and> wok c then [message] else [])"
  by (induction ks) (auto simp: received_def)

text \<open>Without any assumption on the order \<open>ks\<close>: what a range of \<open>handleBroadcast\<close>
  writes, it writes as text, to a registered connection that is not the sender.\<close>

lemma broadcast_range_new:
  "\<exists>new. writes (broadcast_range wok sender message ks s) = writes s @ new
     \<and> (\<forall>w\<in>set new. w_conn w \<noteq> sender \<and> w_conn w \<in> dom (clients s)
           \<and> w_type w = TextMessage \<and> w_data w = message \<and> w_by w = HandleBroadcast sender)
     \<and> dom (clients (broadcast_range wok sender message ks s)) \<subseteq> dom (clients s)"
proof (induction ks arbitrary: s)
  case Nil
  show ?case by simp
next
  case (Cons c ks)
  show ?case
  proof (cases "c \<in> dom (clients s)")
    case False
    then show ?thesis using Cons.IH [of s] by simp
  next
    case True
    let ?s = "broadcast_client sender message c (wok c) s"
    obtain new where new: "writes (broadcast_range wok sender message ks ?s) = writes ?s @ new"
      "\<forall>w\<in>set new. w_conn w \<noteq> sender \<and> w_conn w \<in> dom (clients ?s)
           \<and> w_type w = TextMessage \<and> w_data w = message \<and> w_by w = HandleBroadcast sender"
      "dom (clients (broadcast_range wok sender message ks ?s)) \<subseteq> dom (clients ?s)"
      using Cons.IH [of ?s] by blast
    have sub: "dom (clients ?s) \<subseteq> dom (clients s)"
      by (auto simp: broadcast_client_def clients_delete_def split: if_splits)
    obtain hd where hd: "writes ?s = writes s @ hd"
      "\<forall>w\<in>set hd. w_conn w \<noteq> sender \<and> w_conn w \<in> dom (clients s)
           \<and> w_type w = TextMessage \<and> w_data w = message \<and> w_by w = HandleBroadcast sender"
      using True by (cases "c = sender"; cases "wok c") (auto simp: broadcast_client_def)
    have "writes (broadcast_range wok sender message (c # ks) s) = writes s @ (hd @ new)"
      using True new(1) hd(1) by simp
    moreover have "\<forall>w\<in>set (hd @ new). w_conn w \<noteq> sender \<and> w_conn w \<in> dom (clients s)
           \<and> w_type w = TextMessage \<and> w_data w = message \<and> w_by w = HandleBroadcast sender"
      using new(2) hd(2) sub unfolding set_append by blast
    moreover have "dom (clients (broadcast_range wok sender message (c # ks) s)) \<subseteq> dom (clients s)"
      using True new(3) sub by (simp del: domIff)
    ultimately show ?thesis by blast
  qed
qed

lemma handleBroadcast_new:
  "\<forall>w\<in>set (new_writes s (handleBroadcast wok ks sender message s)).
      w_conn w \<noteq> sender \<and> w_conn w \<in> dom (clients s)
      \<and> w_type w = TextMessage \<and> w_data w = message \<and> w_by w = HandleBroadcast sender"
proof -
  obtain new where "writes (broadcast_range wok sender message ks (s\<lparr>mutex := True\<rparr>)) = writes s @ new"
    and "\<forall>w\<in>set new. w_conn w \<noteq> sender \<and> w_conn w \<in> dom (clients s)
           \<and> w_type w = TextMessage \<and> w_data w = message \<and> w_by w = HandleBroadcast sender"
    using broadcast_range_new [of wok sender message ks "s\<lparr>mutex := True\<rparr>"] by auto
  then show ?thesis
    by (simp add: new_writes_def handleBroadcast_def)
qed

lemma count_list_map_filter:
  "distinct ks \<Longrightarrow>
   count_list (map (\<lambda>c. (c, b)) (filter P ks)) (B, b) = (if B \<in> set ks \<and> P B then 1 else 0)"
  by (induction ks) auto

section \<open>The registry operations\<close>

text \<open>
  Claim C8. Adding a connection twice is the same as adding it once; adding a connection
  that is present leaves the set of registered connections as it is, and leaves the whole
  map as it is when its entry is \<open>true\<close> (the only value the program stores); after an add
  the keys are the old keys and the connection, so every range order lists it once.
  Deleting an absent connection changes nothing; deleting a present one removes its key and
  leaves every other entry as it was.
\<close>

theorem registry_add_remove:
  "clients_add c (clients_add c m) = clients_add c m
   \<and> (c \<in> dom m \<longrightarrow> dom (clients_add c m) = dom m)
   \<and> (m c = Some True \<longrightarrow> clients_add c m = m)
   \<and> dom (clients_add c m) = insert c (dom m)
   \<and> (\<forall>ks. range_order (clients_add c m) ks \<longrightarrow> count_list ks c = 1)
   \<and> (c \<notin> dom m \<longrightarrow> clients_delete c m = m)
   \<and> (c \<in> dom m \<longrightarrow> dom (clients_delete c m) = dom m - {c})
   \<and> (\<forall>c'. c' \<noteq> c \<longrightarrow> clients_delete c m c' = m c')"
proof -
  have "count_list ks c = 1" if "range_order (clients_add c m) ks" for ks
  proof -
    from that have "distinct ks" and "c \<in> set ks"
      by (auto simp: range_order_def clients_add_def)
    then show ?thesis by (simp add: count_list_distinct)
  qed
  then show ?thesis
    by (auto simp: clients_add_def clients_delete_def fun_upd_idem)
qed

theorem registry_add_remove_witness:
  "clients_add 1 [1 \<mapsto> True] = [1 \<mapsto> True]
   \<and> dom (clients_add 1 [1 \<mapsto> True]) = {1}
   \<and> range_order (clients_add 1 [1 \<mapsto> True]) [1] \<and> count_list [1::nat] 1 = 1
   \<and> 2 \<notin> dom [1::nat \<mapsto> True] \<and> clients_delete 2 [1 \<mapsto> True] = [1 \<mapsto> True]
   \<and> 1 \<in> dom [1::nat \<mapsto> True, 2 \<mapsto> True]
   \<and> dom (clients_delete 1 [1 \<mapsto> True, 2 \<mapsto> True]) = {2}
   \<and> clients_delete 1 [1 \<mapsto> True, 2 \<mapsto> True] 2 = Some True"
  using registry_add_remove [of 1 "[1 \<mapsto> True]"]
    registry_add_remove [of 2 "[1 \<mapsto> True]"]
    registry_add_remove [of 1 "[1 \<mapsto> True, 2 \<mapsto> True]"]
  by (auto simp: range_order_def clients_add_def)

section \<open>Broadcast\<close>

text \<open>
  Claim C2. Whatever the order of the range and whichever writes fail, every write that
  \<open>handleBroadcast\<close> makes for an envelope of sender \<open>S\<close> goes to a connection other than
  \<open>S\<close> that is registered, so \<open>S\<close> receives nothing from its own envelope.
\<close>

theorem no_self_delivery:
  "(\<forall>w\<in>set (new_writes s (handleBroadcast wok ks S message s)).
       w_conn w \<noteq> S \<and> w_conn w \<in> dom (clients s))
   \<and> received (new_writes s (handleBroadcast wok ks S message s)) S = []"
proof -
  have *: "\<forall>w\<in>set (new_writes s (handleBroadcast wok ks S message s)).
       w_conn w \<noteq> S \<and> w_conn w \<in> dom (clients s)"
    using handleBroadcast_new [of s wok ks S message] by blast
  then have "filter (\<lambda>w. w_conn w = S \<and> w_ok w)
      (new_writes s (handleBroadcast wok ks S message s)) = []"
    by (auto simp: filter_empty_conv)
  then show ?thesis using * by (simp add: received_def)
qed

theorem no_self_delivery_witness:
  "new_writes three_clients (handleBroadcast (\<lambda>_. True) [1, 2, 3] 1 ''hello'' three_clients) =
     [WriteMessage 2 TextMessage ''hello'' True (HandleBroadcast 1),
      WriteMessage 3 TextMessage ''hello'' True (HandleBroadcast 1)]
   \<and> received (new_writes three_clients
          (handleBroadcast (\<lambda>_. True) [1, 2, 3] 1 ''hello'' three_clients)) 1 = []"
proof -
  have "new_writes three_clients (handleBroadcast (\<lambda>_. True) [1, 2, 3] 1 ''hello'' three_clients) =
     [WriteMessage 2 TextMessage ''hello'' True (HandleBroadcast 1),
      WriteMessage 3 TextMessage ''hello'' True (HandleBroadcast 1)]"
    by (simp add: three_clients_def init_server_def handleBroadcast_def new_writes_def
        broadcast_client_def clients_delete_def)
  then show ?thesis
    using no_self_delivery [of three_clients "\<lambda>_. True" "[1, 2, 3]" 1 "''hello''"] by simp
qed

text \<open>
  Claim C3. When the sender \<open>A\<close> is one of the registered connections and no write to a
  registered connection fails, one turn of \<open>handleBroadcast\<close> makes as many writes as there
  are registered connections but one; every registered connection other than \<open>A\<close> receives
  exactly the message, once; \<open>A\<close> and every unregistered connection receive nothing; and the
  registry is as before.
\<close>

theorem fanout_complete:
  assumes "range_order (clients s) ks" and "A \<in> dom (clients s)"
    and "\<forall>c\<in>dom (clients s). wok c"
  shows "length (new_writes s (handleBroadcast wok ks A M s)) = card (dom (clients s)) - 1
   \<and> (\<forall>c\<in>dom (clients s). c \<noteq> A \<longrightarrow>
         received (new_writes s (handleBroadcast wok ks A M s)) c = [M])
   \<and> received (new_writes s (handleBroadcast wok ks A M s)) A = []
   \<and> (\<forall>c. c \<notin> dom (clients s) \<longrightarrow>
         received (new_writes s (handleBroadcast wok ks A M s)) c = [])
   \<and> clients (handleBroadcast wok ks A M s) = clients s"
proof -
  have d: "distinct ks" and k: "set ks = dom (clients s)"
    using assms(1) by (simp_all add: range_order_def)
  have "length (filter (\<lambda>c. c \<noteq> A) ks) = card (set ks - {A})"
    using d by (metis distinct_card distinct_filter set_minus_filter_out)
  also have "\<dots> = card (dom (clients s)) - 1"
    using assms(2) k by (simp add: card_Diff_singleton)
  finally have len: "length (filter (\<lambda>c. c \<noteq> A) ks) = card (dom (clients s)) - 1" .
  have "clients s c = None" if "\<not> wok c" for c
    using assms(3) that by (cases "clients s c") auto
  then have cl: "clients (handleBroadcast wok ks A M s) = clients s"
    by (auto simp: handleBroadcast_clients [OF assms(1)] fun_eq_iff)
  show ?thesis
    using len cl k assms(3)
    by (auto simp: handleBroadcast_new_writes [OF assms(1)] received_map_filter [OF d])
qed

theorem fanout_complete_witness:
  "range_order (clients three_clients) [3, 1, 2] \<and> 1 \<in> dom (clients three_clients)
   \<and> length (new_writes three_clients
        (handleBroadcast (\<lambda>_. True) [3, 1, 2] 1 ''hello'' three_clients)) = 2
   \<and> received (new_writes three_clients
        (handleBroadcast (\<lambda>_. True) [3, 1, 2] 1 ''hello'' three_clients)) 2 = [''hello'']
   \<and> received (new_writes three_clients
        (handleBroadcast (\<lambda>_. True) [3, 1, 2] 1 ''hello'' three_clients)) 3 = [''hello'']
   \<and> received (new_writes three_clients
        (handleBroadcast (\<lambda>_. True) [3, 1, 2] 1 ''hello'' three_clients)) 1 = []"
proof -
  have r: "range_order (clients three_clients) [3, 1, 2]"
    by (auto simp: range_order_def three_clients_def init_server_def)
  have a: "1 \<in> dom (clients three_clients)"
    by (simp add: three_clients_def init_server_def)
  have w: "\<forall>c\<in>dom (clients three_clients). (\<lambda>_. True) c" by simp
  have d: "dom (clients three_clients) = {1, 2, 3}"
    by (auto simp: three_clients_def init_server_def)
  show ?thesis
    using fanout_complete [OF r a w, of "''hello''"] r a by (simp add: d)
qed

text \<open>
  Claim C4. Let the write to a registered recipient \<open>B\<close> fail in one turn of
  \<open>handleBroadcast\<close>. Then \<open>B\<close> is closed once and is no longer registered; every other
  registered connection that is not the sender and whose own write succeeds receives the
  message once and stays registered; nothing is written to the sender; and in a following
  turn, for any envelope, nothing is written to \<open>B\<close>, every write goes to a connection
  still registered, and each of these that is not the sender and accepts the write receives
  the new message.
\<close>

theorem fault_isolation:
  fixes s :: server and wok :: "conn \<Rightarrow> bool" and message :: bytes
  assumes "range_order (clients s) ks" and "B \<in> dom (clients s)" and "B \<noteq> sender"
    and "\<not> wok B"
  defines "s' \<equiv> handleBroadcast wok ks sender message s"
  shows "B \<notin> dom (clients s')
   \<and> count_list (new_closes s s') (B, HandleBroadcast sender) = 1
   \<and> (\<forall>c\<in>dom (clients s). c \<noteq> sender \<and> wok c \<longrightarrow>
          received (new_writes s s') c = [message] \<and> clients s' c = clients s c)
   \<and> (\<forall>w\<in>set (new_writes s s'). w_conn w \<noteq> sender)
   \<and> (\<forall>ks' wok' sender' message'. range_order (clients s') ks' \<longrightarrow>
          (\<forall>w\<in>set (new_writes s' (handleBroadcast wok' ks' sender' message' s')).
              w_conn w \<noteq> B \<and> w_conn w \<in> dom (clients s'))
        \<and> (\<forall>c\<in>dom (clients s'). c \<noteq> sender' \<and> wok' c \<longrightarrow>
              received (new_writes s' (handleBroadcast wok' ks' sender' message' s')) c = [message']))"
proof -
  have d: "distinct ks" and k: "set ks = dom (clients s)"
    using assms(1) by (simp_all add: range_order_def)
  have cl: "clients s' = (\<lambda>c. if c \<noteq> sender \<and> \<not> wok c then None else clients s c)"
    unfolding s'_def by (rule handleBroadcast_clients [OF assms(1)])
  have 1: "B \<notin> dom (clients s')"
    using assms(3,4) by (simp add: cl dom_def)
  have 2: "count_list (new_closes s s') (B, HandleBroadcast sender) = 1"
    unfolding s'_def handleBroadcast_new_closes [OF assms(1)]
    using assms(2,3,4) k by (simp add: count_list_map_filter [OF d])
  have 3: "\<forall>c\<in>dom (clients s). c \<noteq> sender \<and> wok c \<longrightarrow>
          received (new_writes s s') c = [message] \<and> clients s' c = clients s c"
    unfolding s'_def handleBroadcast_new_writes [OF assms(1)]
    using k by (simp add: received_map_filter [OF d] handleBroadcast_clients [OF assms(1)])
  have 4: "\<forall>w\<in>set (new_writes s s'). w_conn w \<noteq> sender"
    unfolding s'_def using handleBroadcast_new [of s wok ks sender message] by blast
  have 5: "(\<forall>w\<in>set (new_writes s' (handleBroadcast wok' ks' sender' message' s')).
              w_conn w \<noteq> B \<and> w_conn w \<in> dom (clients s'))
        \<and> (\<forall>c\<in>dom (clients s'). c \<noteq> sender' \<and> wok' c \<longrightarrow>
              received (new_writes s' (handleBroadcast wok' ks' sender' message' s')) c = [message'])"
    if r: "range_order (clients s') ks'" for ks' wok' sender' message'
  proof -
    have d': "distinct ks'" and k': "set ks' = dom (clients s')"
      using r by (simp_all add: range_order_def)
    have "\<forall>w\<in>set (new_writes s' (handleBroadcast wok' ks' sender' message' s')).
              w_conn w \<in> dom (clients s')"
      using handleBroadcast_new [of s' wok' ks' sender' message'] by blast
    then have "\<forall>w\<in>set (new_writes s' (handleBroadcast wok' ks' sender' message' s')).
              w_conn w \<noteq> B \<and> w_conn w \<in> dom (clients s')"
      using 1 by blast
    moreover have "\<forall>c\<in>dom (clients s'). c \<noteq> sender' \<and> wok' c \<longrightarrow>
              received (new_writes s' (handleBroadcast wok' ks' sender' message' s')) c = [message']"
      unfolding handleBroadcast_new_writes [OF r]
      using k' by (simp add: received_map_filter [OF d'])
    ultimately show ?thesis by blast
  qed
  show ?thesis using 1 2 3 4 5 by blast
qed

theorem fault_isolation_witness:
  "range_order (clients four_clients) [1, 2, 3, 4] \<and> 2 \<in> dom (clients four_clients)
   \<and> (2::nat) \<noteq> 1 \<and> \<not> (\<lambda>c. c \<noteq> 2) (2::nat)
   \<and> dom (clients (handleBroadcast (\<lambda>c. c \<noteq> 2) [1, 2, 3, 4] 1 ''m'' four_clients)) = {1, 3, 4}
   \<and> new_closes four_clients (handleBroadcast (\<lambda>c. c \<noteq> 2) [1, 2, 3, 4] 1 ''m'' four_clients) =
       [(2, HandleBroadcast 1)]
   \<and> new_writes four_clients (handleBroadcast (\<lambda>c. c \<noteq> 2) [1, 2, 3, 4] 1 ''m'' four_clients) =
       [WriteMessage 2 TextMessage ''m'' False (HandleBroadcast 1),
        WriteMessage 3 TextMessage ''m'' True (HandleBroadcast 1),
        WriteMessage 4 TextMessage ''m'' True (HandleBroadcast 1)]
   \<and> range_order (clients (handleBroadcast (\<lambda>c. c \<noteq> 2) [1, 2, 3, 4] 1 ''m'' four_clients)) [4, 3, 1]
   \<and> new_writes (handleBroadcast (\<lambda>c. c \<noteq> 2) [1, 2, 3, 4] 1 ''m'' four_clients)
       (handleBroadcast (\<lambda>_. True) [4, 3, 1] 1 ''n''
          (handleBroadcast (\<lambda>c. c \<noteq> 2) [1, 2, 3, 4] 1 ''m'' four_clients)) =
       [WriteMessage 4 TextMessage ''n'' True (HandleBroadcast 1),
        WriteMessage 3 TextMessage ''n'' True (HandleBroadcast 1)]
   \<and> received (new_writes four_clients
        (handleBroadcast (\<lambda>c. c \<noteq> 2) [1, 2, 3, 4] 1 ''m'' four_clients)) 3 = [''m'']"
proof -
  let ?s' = "handleBroadcast (\<lambda>c. c \<noteq> 2) [1, 2, 3, 4] 1 ''m'' four_clients"
  have r: "range_order (clients four_clients) [1, 2, 3, 4]"
    by (auto simp: range_order_def four_clients_def init_server_def)
  have b: "2 \<in> dom (clients four_clients)"
    by (simp add: four_clients_def init_server_def)
  have n: "(2::nat) \<noteq> 1" and f: "\<not> (\<lambda>c. c \<noteq> 2) (2::nat)"
    by simp_all
  have "dom (clients four_clients) = {1, 2, 3, 4}"
    by (auto simp: four_clients_def init_server_def)
  then have d: "dom (clients ?s') = {1, 3, 4}"
    unfolding handleBroadcast_dom [OF r] by auto
  have r': "range_order (clients ?s') [4, 3, 1]"
    unfolding range_order_def d by auto
  have w: "new_writes four_clients ?s' =
       [WriteMessage 2 TextMessage ''m'' False (HandleBroadcast 1),
        WriteMessage 3 TextMessage ''m'' True (HandleBroadcast 1),
        WriteMessage 4 TextMessage ''m'' True (HandleBroadcast 1)]"
    unfolding handleBroadcast_new_writes [OF r] by simp
  have w': "new_writes ?s' (handleBroadcast (\<lambda>_. True) [4, 3, 1] 1 ''n'' ?s') =
       [WriteMessage 4 TextMessage ''n'' True (HandleBroadcast 1),
        WriteMessage 3 TextMessage ''n'' True (HandleBroadcast 1)]"
    unfolding handleBroadcast_new_writes [OF r'] by simp
  have cs: "new_closes four_clients ?s' = [(2, HandleBroadcast 1)]"
    unfolding handleBroadcast_new_closes [OF r] by simp
  have rc: "received (new_writes four_clients ?s') 3 = [''m'']"
    unfolding w by (simp add: received_def)
  show ?thesis
    using fault_isolation [where s = four_clients and ks = "[1, 2, 3, 4]" and B = 2
        and sender = 1 and wok = "\<lambda>c. c \<noteq> 2" and message = "''m''"]
      r b r' d w w' cs rc
    by simp
qed

section \<open>The liveness prober\<close>

text \<open>
  Claim C7. The ticker of \<open>keepAlive\<close> has a period of 30 seconds. At a tick, one turn of
  its loop writes to each registered connection one ping with an empty payload, and to no
  other connection; a connection whose ping fails is closed and deleted from the registry,
  which is what the body of the broadcast loop does to a recipient whose write fails; the
  turn reads from no connection, and a connection that accepts the ping stays registered
  whatever it answers.
\<close>

theorem keepAlive_probes:
  assumes "range_order (clients s) ks"
  shows "keepAlive_period = 30 * Second
   \<and> new_writes s (keepAlive wok ks s) =
        map (\<lambda>c. WriteMessage c PingMessage [] (wok c) KeepAlive) ks
   \<and> (\<forall>c\<in>dom (clients s). count_list (map w_conn (new_writes s (keepAlive wok ks s))) c = 1)
   \<and> (\<forall>w\<in>set (new_writes s (keepAlive wok ks s)).
         w_conn w \<in> dom (clients s) \<and> w_type w = PingMessage \<and> w_data w = [])
   \<and> clients (keepAlive wok ks s) = (\<lambda>c. if wok c then clients s c else None)
   \<and> new_closes s (keepAlive wok ks s) = map (\<lambda>c. (c, KeepAlive)) (filter (\<lambda>c. \<not> wok c) ks)
   \<and> (\<forall>c sender message. c \<noteq> sender \<longrightarrow>
         clients (keepAlive_client c False s) = clients (broadcast_client sender message c False s)
       \<and> map fst (closes (keepAlive_client c False s)) =
           map fst (closes (broadcast_client sender message c False s)))
   \<and> reads (keepAlive wok ks s) = reads s"
proof -
  have d: "distinct ks" and k: "set ks = dom (clients s)"
    using assms by (simp_all add: range_order_def)
  have m: "map w_conn (map (\<lambda>c. WriteMessage c PingMessage [] (wok c) KeepAlive) ks) = ks"
    by (induction ks) simp_all
  have 3: "\<forall>c\<in>dom (clients s). count_list (map w_conn (new_writes s (keepAlive wok ks s))) c = 1"
    unfolding keepAlive_new_writes [OF assms] m using k by (simp add: count_list_distinct [OF d])
  have 4: "\<forall>w\<in>set (new_writes s (keepAlive wok ks s)).
         w_conn w \<in> dom (clients s) \<and> w_type w = PingMessage \<and> w_data w = []"
    unfolding keepAlive_new_writes [OF assms] using k by auto
  have 7: "\<forall>c sender message. c \<noteq> sender \<longrightarrow>
         clients (keepAlive_client c False s) = clients (broadcast_client sender message c False s)
       \<and> map fst (closes (keepAlive_client c False s)) =
           map fst (closes (broadcast_client sender message c False s))"
    by (simp add: keepAlive_client_def broadcast_client_def)
  have 8: "reads (keepAlive wok ks s) = reads s"
    by (simp add: keepAlive_def keepAlive_range_reads)
  show ?thesis
    using 3 4 7 8 keepAlive_new_writes [OF assms] keepAlive_clients [OF assms]
      keepAlive_new_closes [OF assms]
    by (simp add: keepAlive_period_def)
qed

theorem keepAlive_probes_witness:
  "range_order (clients three_clients) [2, 3, 1]
   \<and> keepAlive_period = 30000000000
   \<and> new_writes three_clients (keepAlive (\<lambda>c. c \<noteq> 2) [2, 3, 1] three_clients) =
       [WriteMessage 2 PingMessage [] False KeepAlive,
        WriteMessage 3 PingMessage [] True KeepAlive,
        WriteMessage 1 PingMessage [] True KeepAlive]
   \<and> dom (clients (keepAlive (\<lambda>c. c \<noteq> 2) [2, 3, 1] three_clients)) = {1, 3}
   \<and> new_closes three_clients (keepAlive (\<lambda>c. c \<noteq> 2) [2, 3, 1] three_clients) = [(2, KeepAlive)]
   \<and> clients (keepAlive_client 2 False three_clients) =
       clients (broadcast_client 1 ''m'' 2 False three_clients)"
proof -
  have r: "range_order (clients three_clients) [2, 3, 1]"
    by (auto simp: range_order_def three_clients_def init_server_def)
  have d: "dom (\<lambda>c. if c \<noteq> 2 then clients three_clients c else None) = {1, 3}"
    by (auto simp: three_clients_def init_server_def split: if_splits)
  show ?thesis
    using keepAlive_probes [OF r, of "\<lambda>c. c \<noteq> 2"] r d
    by (simp add: Second_def)
qed

section \<open>Runs and reachable states\<close>

lemma range_order_Nil: "range_order m [] \<longleftrightarrow> dom m = {}"
  by (auto simp: range_order_def)

lemma range_order_Cons:
  "range_order m (k # ks) \<longleftrightarrow> k \<in> dom m \<and> range_order (m(k := None)) ks"
  by (auto simp: range_order_def)

lemma run_reachable: "reachable s \<Longrightarrow> run s es = Some s' \<Longrightarrow> reachable s'"
proof (induction es arbitrary: s)
  case Nil
  then show ?case by simp
next
  case (Cons e es)
  then show ?case
    by (auto split: option.splits intro: reachable.reach_step)
qed

lemma reachable_state_after: "reachable (state_after es)"
  using run_reachable [OF reachable.reach_init, of es]
  by (auto simp: state_after_def intro: reachable.reach_init split: option.splits)

lemma run_double_close:
  "run init_server double_close_run =
     Some \<lparr>clients = [1 \<mapsto> True], mutex = False,
       wsHandler_pc = (\<lambda>_. NotStarted)(1 := AtRead, 2 := Returned),
       handleBroadcast_pc = BRecv, keepAlive_pc = KTick,
       writes = [WriteMessage 1 TextMessage welcome_message True WsHandler,
                 WriteMessage 2 TextMessage welcome_message True WsHandler,
                 WriteMessage 2 TextMessage ''hello'' False (HandleBroadcast 1)],
       closes = [(2, HandleBroadcast 1), (2, WsHandler)],
       reads = [(1, ''hello'')]\<rparr>"
  by (simp add: double_close_run_def init_server_def clients_add_def clients_delete_def
      broadcast_client_def range_order_Nil range_order_Cons fun_upd_twist)

lemma run_two_messages:
  "run init_server two_messages_run =
     Some \<lparr>clients = [1 \<mapsto> True, 2 \<mapsto> True], mutex = False,
       wsHandler_pc = (\<lambda>_. NotStarted)(1 := AtRead, 2 := AtRead),
       handleBroadcast_pc = BRecv, keepAlive_pc = KTick,
       writes = [WriteMessage 1 TextMessage welcome_message True WsHandler,
                 WriteMessage 2 TextMessage welcome_message True WsHandler,
                 WriteMessage 2 TextMessage ''a'' True (HandleBroadcast 1),
                 WriteMessage 2 TextMessage ''b'' True (HandleBroadcast 1)],
       closes = [],
       reads = [(1, ''a''), (1, ''b'')]\<rparr>"
  by (simp add: two_messages_run_def init_server_def clients_add_def clients_delete_def
      broadcast_client_def range_order_Nil range_order_Cons fun_upd_twist)

lemma run_binary:
  "run init_server binary_run =
     Some \<lparr>clients = [1 \<mapsto> True, 2 \<mapsto> True], mutex = False,
       wsHandler_pc = (\<lambda>_. NotStarted)(1 := AtRead, 2 := AtRead),
       handleBroadcast_pc = BRecv, keepAlive_pc = KTick,
       writes = [WriteMessage 1 TextMessage welcome_message True WsHandler,
                 WriteMessage 2 TextMessage welcome_message True WsHandler,
                 WriteMessage 2 TextMessage ''x'' True (HandleBroadcast 1)],
       closes = [],
       reads = [(1, ''x'')]\<rparr>"
  by (simp add: binary_run_def init_server_def clients_add_def clients_delete_def
      broadcast_client_def range_order_Nil range_order_Cons fun_upd_twist)

lemma run_welcome_failure:
  "run init_server welcome_failure_run =
     Some \<lparr>clients = Map.empty, mutex = False,
       wsHandler_pc = (\<lambda>_. NotStarted)(1 := Returned),
       handleBroadcast_pc = BRecv, keepAlive_pc = KTick,
       writes = [WriteMessage 1 TextMessage welcome_message False WsHandler],
       closes = [(1, WsHandler)],
       reads = []\<rparr>"
  by (simp add: welcome_failure_run_def init_server_def clients_add_def clients_delete_def)

section \<open>Closing and deregistering\<close>

lemma cleanup_inv_init: "cleanup_inv init_server c"
  by (simp add: cleanup_inv_def init_server_def close_calls_def)

lemma cleanup_inv_pc [simp]:
  "cleanup_inv (s\<lparr>handleBroadcast_pc := bp\<rparr>) c = cleanup_inv s c"
  "cleanup_inv (s\<lparr>keepAlive_pc := kp\<rparr>) c = cleanup_inv s c"
  "cleanup_inv (s\<lparr>mutex := b\<rparr>) c = cleanup_inv s c"
  "cleanup_inv (s\<lparr>writes := ws\<rparr>) c = cleanup_inv s c"
  "cleanup_inv (s\<lparr>reads := rs\<rparr>) c = cleanup_inv s c"
  by (simp_all add: cleanup_inv_def close_calls_def)

text \<open>A failed write of a range: the connection was registered, so nobody had closed it.\<close>

lemma cleanup_inv_fail:
  assumes "cleanup_inv s c" and "clients s client \<noteq> None" and "b \<noteq> WsHandler"
  shows "cleanup_inv (s\<lparr>writes := ws, closes := closes s @ [(client, b)],
            clients := clients_delete client (clients s)\<rparr>) c"
proof (cases "client = c")
  case False
  then show ?thesis using assms(1)
    by (simp add: cleanup_inv_def close_calls_def clients_delete_def)
next
  case True
  have cc: "filter (\<lambda>x. fst x = c) (closes s) = []" and "wsHandler_pc s c \<noteq> NotStarted"
    and "wsHandler_pc s c \<noteq> AtRegister" and "wsHandler_pc s c \<noteq> Returned"
    using assms(1,2) True by (auto simp: cleanup_inv_def close_calls_def)
  then show ?thesis using True assms(3)
    by (simp add: cleanup_inv_def close_calls_def clients_delete_def)
qed

lemma cleanup_inv_broadcast_client:
  assumes "cleanup_inv s c" and "clients s client \<noteq> None"
  shows "cleanup_inv (broadcast_client sender message client ok s) c"
proof -
  have "cleanup_inv (s\<lparr>writes := ws, closes := closes s @ [(client, HandleBroadcast sender)],
            clients := clients_delete client (clients s)\<rparr>) c" for ws
    using assms by (intro cleanup_inv_fail) simp_all
  then show ?thesis using assms(1)
    by (simp add: broadcast_client_def)
qed

lemma cleanup_inv_keepAlive_client:
  assumes "cleanup_inv s c" and "clients s client \<noteq> None"
  shows "cleanup_inv (keepAlive_client client ok s) c"
proof -
  have "cleanup_inv (s\<lparr>writes := ws, closes := closes s @ [(client, KeepAlive)],
            clients := clients_delete client (clients s)\<rparr>) c" for ws
    using assms by (intro cleanup_inv_fail) simp_all
  then show ?thesis using assms(1)
    by (simp add: keepAlive_client_def)
qed

lemma cleanup_inv_step:
  assumes "cleanup_inv s c" and "step s e = Some s'"
  shows "cleanup_inv s' c"
proof (cases e)
  case (Upgrade x)
  with assms(2) have pc: "wsHandler_pc s x = NotStarted"
    and s': "s' = s\<lparr>wsHandler_pc := (wsHandler_pc s)(x := AtRegister)\<rparr>"
    by (auto split: if_splits)
  show ?thesis unfolding s' using assms(1) pc
    by (cases "c = x") (simp_all add: cleanup_inv_def close_calls_def)
next
  case UpgradeError
  then show ?thesis using assms by simp
next
  case (Register x)
  with assms(2) have pc: "wsHandler_pc s x = AtRegister"
    and s': "s' = s\<lparr>clients := clients_add x (clients s),
                   wsHandler_pc := (wsHandler_pc s)(x := AtWelcome)\<rparr>"
    by (auto split: if_splits)
  show ?thesis unfolding s' using assms(1) pc
    by (cases "c = x") (simp_all add: cleanup_inv_def close_calls_def clients_add_def)
next
  case (Welcome x ok)
  with assms(2) have pc: "wsHandler_pc s x = AtWelcome"
    and s': "s' = s\<lparr>writes := writes s @ [WriteMessage x TextMessage welcome_message ok WsHandler],
                   wsHandler_pc := (wsHandler_pc s)(x := (if ok then AtRead else AtDeferDelete))\<rparr>"
    by (auto split: if_splits)
  show ?thesis unfolding s' using assms(1) pc
    by (cases "c = x") (simp_all add: cleanup_inv_def close_calls_def)
next
  case (Read x r)
  show ?thesis
  proof (cases r)
    case None
    with Read assms(2) have pc: "wsHandler_pc s x = AtRead"
      and s': "s' = s\<lparr>wsHandler_pc := (wsHandler_pc s)(x := AtDeferDelete)\<rparr>"
      by (auto split: if_splits)
    show ?thesis unfolding s' using assms(1) pc
      by (cases "c = x") (simp_all add: cleanup_inv_def close_calls_def)
  next
    case (Some tm)
    obtain t message where tm: "tm = (t, message)" by (cases tm)
    with Some Read assms(2) have pc: "wsHandler_pc s x = AtRead"
      and s': "s' = s\<lparr>reads := reads s @ [(x, message)],
                     wsHandler_pc := (wsHandler_pc s)(x := AtSend message)\<rparr>"
      by (auto split: if_splits)
    show ?thesis unfolding s' using assms(1) pc
      by (cases "c = x") (simp_all add: cleanup_inv_def close_calls_def)
  qed
next
  case (Send x)
  with assms(2) obtain message where pc: "wsHandler_pc s x = AtSend message"
    and s': "s' = s\<lparr>wsHandler_pc := (wsHandler_pc s)(x := AtRead),
                        handleBroadcast_pc := BLock x message\<rparr>"
    by (auto split: if_splits hpc.splits)
  show ?thesis unfolding s' using assms(1) pc
    by (cases "c = x") (simp_all add: cleanup_inv_def close_calls_def)
next
  case (DeferDelete x)
  with assms(2) have pc: "wsHandler_pc s x = AtDeferDelete"
    and s': "s' = s\<lparr>clients := clients_delete x (clients s),
                   wsHandler_pc := (wsHandler_pc s)(x := AtDeferClose)\<rparr>"
    by (auto split: if_splits)
  show ?thesis unfolding s' using assms(1) pc
    by (cases "c = x") (simp_all add: cleanup_inv_def close_calls_def clients_delete_def)
next
  case (DeferClose x)
  with assms(2) have pc: "wsHandler_pc s x = AtDeferClose"
    and s': "s' = s\<lparr>closes := closes s @ [(x, WsHandler)],
                   wsHandler_pc := (wsHandler_pc s)(x := Returned)\<rparr>"
    by (auto split: if_splits)
  show ?thesis unfolding s' using assms(1) pc
    by (cases "c = x") (simp_all add: cleanup_inv_def close_calls_def)
next
  case (BroadcastLock ks)
  with assms(2) obtain sender message where
    s': "s' = s\<lparr>mutex := True, handleBroadcast_pc := BRange sender message ks\<rparr>"
    by (auto split: if_splits bpc.splits)
  show ?thesis unfolding s' using assms(1) by simp
next
  case (BroadcastClient ok)
  with assms(2) obtain sender message client ks where
    s': "s' = (if client \<in> dom (clients s) then broadcast_client sender message client ok s else s)
                  \<lparr>handleBroadcast_pc := BRange sender message ks\<rparr>"
    by (auto split: bpc.splits list.splits)
  show ?thesis unfolding s' using assms(1)
    by (simp add: cleanup_inv_broadcast_client domIff)
next
  case BroadcastUnlock
  with assms(2) have s': "s' = s\<lparr>mutex := False, handleBroadcast_pc := BRecv\<rparr>"
    by (auto split: bpc.splits list.splits)
  show ?thesis unfolding s' using assms(1) by simp
next
  case Tick
  with assms(2) have s': "s' = s\<lparr>keepAlive_pc := KLock\<rparr>"
    by (auto split: if_splits)
  show ?thesis unfolding s' using assms(1) by simp
next
  case (KeepAliveLock ks)
  with assms(2) have s': "s' = s\<lparr>mutex := True, keepAlive_pc := KRange ks\<rparr>"
    by (auto split: if_splits)
  show ?thesis unfolding s' using assms(1) by simp
next
  case (KeepAliveClient ok)
  with assms(2) obtain client ks where
    s': "s' = (if client \<in> dom (clients s) then keepAlive_client client ok s else s)
                  \<lparr>keepAlive_pc := KRange ks\<rparr>"
    by (auto split: kpc.splits list.splits)
  show ?thesis unfolding s' using assms(1)
    by (simp add: cleanup_inv_keepAlive_client domIff)
next
  case KeepAliveUnlock
  with assms(2) have s': "s' = s\<lparr>mutex := False, keepAlive_pc := KTick\<rparr>"
    by (auto split: kpc.splits list.splits)
  show ?thesis unfolding s' using assms(1) by simp
qed

lemma reachable_cleanup_inv: "reachable s \<Longrightarrow> cleanup_inv s c"
  by (induction rule: reachable.induct) (auto intro: cleanup_inv_init cleanup_inv_step)

lemma step_close_calls:
  assumes "step s e = Some s'"
  shows "\<exists>new. closes s' = closes s @ new"
proof (cases e)
  case (BroadcastClient ok)
  with assms obtain sender message client ks where
    s': "s' = (if client \<in> dom (clients s) then broadcast_client sender message client ok s else s)
                  \<lparr>handleBroadcast_pc := BRange sender message ks\<rparr>"
    by (auto split: bpc.splits list.splits)
  show ?thesis unfolding s' by (simp add: broadcast_client_def)
next
  case (KeepAliveClient ok)
  with assms obtain client ks where
    s': "s' = (if client \<in> dom (clients s) then keepAlive_client client ok s else s)
                  \<lparr>keepAlive_pc := KRange ks\<rparr>"
    by (auto split: kpc.splits list.splits)
  show ?thesis unfolding s' by (simp add: keepAlive_client_def)
qed (use assms in \<open>auto split: if_splits option.splits hpc.splits bpc.splits kpc.splits list.splits\<close>)

lemma run_close_calls:
  "run s es = Some s' \<Longrightarrow> close_calls s c \<noteq> [] \<Longrightarrow> close_calls s' c \<noteq> []"
proof (induction es arbitrary: s)
  case Nil
  then show ?case by simp
next
  case (Cons e es)
  from Cons.prems(1) obtain s1 where s1: "step s e = Some s1" and r: "run s1 es = Some s'"
    by (auto split: option.splits)
  from step_close_calls [OF s1] obtain new where "closes s1 = closes s @ new" ..
  with Cons.prems(2) have "close_calls s1 c \<noteq> []"
    by (simp add: close_calls_def)
  with r show ?case by (rule Cons.IH)
qed

lemma length_tl_Nil: "tl xs = [] \<Longrightarrow> length xs \<le> 1"
  by (cases xs) simp_all

text \<open>
  Claim C1, as stated, fails: in the run \<open>double_close_run\<close>, every event of which can
  happen, \<^verbatim>\<open>Close\<close> is called twice on connection 2, first by \<open>handleBroadcast\<close> after the
  failed write and then by the deferred function of the handler of connection 2.
\<close>

theorem double_close_counterexample:
  "close_calls_after double_close_run 2 = Some [HandleBroadcast 1, WsHandler]"
  by (simp add: close_calls_after_def run_double_close close_calls_def)

text \<open>
  Claim C1, amended. In every reachable state and for every connection: the deferred
  cleanup of its handler has closed it at most once, and exactly once when the handler has
  returned (whichever way it left); the broadcast and probe loops have closed it at most
  once; so \<^verbatim>\<open>Close\<close> has been called on it at most twice. Once it has been closed by anyone
  it is not registered, and it stays closed and unregistered in every later state.
\<close>

theorem cleanup_at_most_twice:
  assumes "reachable s"
  shows "length (filter (\<lambda>b. b = WsHandler) (close_calls s c)) \<le> 1
   \<and> length (filter (\<lambda>b. b \<noteq> WsHandler) (close_calls s c)) \<le> 1
   \<and> length (close_calls s c) \<le> 2
   \<and> (wsHandler_pc s c = Returned \<longrightarrow>
         filter (\<lambda>b. b = WsHandler) (close_calls s c) = [WsHandler])
   \<and> (close_calls s c \<noteq> [] \<longrightarrow> c \<notin> dom (clients s))
   \<and> (\<forall>es s'. close_calls s c \<noteq> [] \<and> run s es = Some s' \<longrightarrow>
         c \<notin> dom (clients s') \<and> close_calls s' c \<noteq> [])"
proof -
  have inv: "cleanup_inv s c" using assms by (rule reachable_cleanup_inv)
  have h: "filter (\<lambda>b. b = WsHandler) (close_calls s c) =
        (if wsHandler_pc s c = Returned then [WsHandler] else [])"
    and t: "tl (filter (\<lambda>b. b \<noteq> WsHandler) (close_calls s c)) = []"
    and r: "clients s c \<noteq> None \<longrightarrow> close_calls s c = []"
    using inv unfolding cleanup_inv_def by blast+
  have 1: "length (filter (\<lambda>b. b = WsHandler) (close_calls s c)) \<le> 1"
    unfolding h by simp
  have 2: "length (filter (\<lambda>b. b \<noteq> WsHandler) (close_calls s c)) \<le> 1"
    using t by (rule length_tl_Nil)
  have "length (close_calls s c) =
      length (filter (\<lambda>b. b = WsHandler) (close_calls s c))
      + length (filter (\<lambda>b. b \<noteq> WsHandler) (close_calls s c))"
    using sum_length_filter_compl [of "\<lambda>b. b = WsHandler" "close_calls s c"] by simp
  then have 3: "length (close_calls s c) \<le> 2" using 1 2 by linarith
  have 4: "wsHandler_pc s c = Returned \<longrightarrow>
         filter (\<lambda>b. b = WsHandler) (close_calls s c) = [WsHandler]"
    unfolding h by simp
  have 5: "close_calls s c \<noteq> [] \<longrightarrow> c \<notin> dom (clients s)"
    using r by (auto simp: domIff)
  have 6: "c \<notin> dom (clients s') \<and> close_calls s' c \<noteq> []"
    if "close_calls s c \<noteq> []" and "run s es = Some s'" for es s'
  proof -
    have ne: "close_calls s' c \<noteq> []" using that(2,1) by (rule run_close_calls)
    have "cleanup_inv s' c"
      using run_reachable [OF assms that(2)] by (rule reachable_cleanup_inv)
    then have "clients s' c \<noteq> None \<longrightarrow> close_calls s' c = []"
      unfolding cleanup_inv_def by blast
    with ne show ?thesis by (auto simp: domIff)
  qed
  show ?thesis using 1 2 3 4 5 6 by blast
qed

theorem cleanup_at_most_twice_witness:
  "reachable (state_after double_close_run)
   \<and> close_calls (state_after double_close_run) 2 = [HandleBroadcast 1, WsHandler]
   \<and> length (close_calls (state_after double_close_run) 2) \<le> 2
   \<and> wsHandler_pc (state_after double_close_run) 2 = Returned
   \<and> 2 \<notin> dom (clients (state_after double_close_run))
   \<and> run (state_after double_close_run) [Tick] \<noteq> None"
  using cleanup_at_most_twice [OF reachable_state_after, of double_close_run 2]
    reachable_state_after [of double_close_run]
  by (simp add: state_after_def run_double_close close_calls_def)

section \<open>Order of delivery\<close>

lemma order_inv_init: "order_inv init_server a r"
  by (simp add: order_inv_def order_cond_def init_server_def read_from_def delivered_def
      in_send_def in_broadcast_def)

lemma order_inv_same:
  assumes "order_inv s a r" and "delivered s' a r = delivered s a r"
    and "read_from s' a = read_from s a" and "in_send s' a = in_send s a"
    and "handleBroadcast_pc s' = handleBroadcast_pc s"
  shows "order_inv s' a r"
  using assms by (simp add: order_inv_def in_broadcast_def)

lemma order_inv_broadcast_client:
  assumes inv: "order_inv s a r"
    and pc: "handleBroadcast_pc s = BRange sender message (client # ks)"
  shows "order_inv ((if client \<in> dom (clients s) then broadcast_client sender message client ok s else s)
                  \<lparr>handleBroadcast_pc := BRange sender message ks\<rparr>) a r"
    (is "order_inv ?s' a r")
proof -
  from inv pc obtain "done" where rd: "read_from s a = done @ in_broadcast s a @ in_send s a"
    and d: "distinct (client # ks)"
    and c: "if sender = a
           then subseq (delivered s a r) (done @ [message])
             \<and> (r \<in> set (client # ks) \<longrightarrow> subseq (delivered s a r) done)
           else subseq (delivered s a r) done"
    by (auto simp: order_inv_def order_cond_def)
  have rd': "read_from ?s' a = done @ in_broadcast ?s' a @ in_send ?s' a"
    using rd pc by (simp add: read_from_def in_broadcast_def in_send_def broadcast_client_def)
  let ?hit = "client \<in> dom (clients s) \<and> client \<noteq> sender \<and> ok \<and> client = r \<and> sender = a"
  have dl: "delivered ?s' a r = delivered s a r @ (if ?hit then [message] else [])"
    by (simp add: delivered_def broadcast_client_def)
  have "order_cond (BRange sender message ks) a r (delivered ?s' a r) done"
  proof (cases ?hit)
    case True
    then have "subseq (delivered s a r) done" using c by simp
    moreover have "r \<notin> set ks" using True d by simp
    ultimately show ?thesis unfolding dl order_cond_def using True d
      by auto
  next
    case False
    then show ?thesis unfolding dl order_cond_def using c d
      by (auto split: if_splits)
  qed
  with rd' show ?thesis
    unfolding order_inv_def by auto
qed

lemma order_inv_step:
  assumes "order_inv s a r" and "step s e = Some s'"
  shows "order_inv s' a r"
proof (cases e)
  case (Upgrade x)
  with assms(2) have pc: "wsHandler_pc s x = NotStarted"
    and s': "s' = s\<lparr>wsHandler_pc := (wsHandler_pc s)(x := AtRegister)\<rparr>"
    by (auto split: if_splits)
  show ?thesis using assms(1) unfolding s'
    by (rule order_inv_same) (use pc in \<open>simp_all add: delivered_def read_from_def in_send_def\<close>)
next
  case UpgradeError
  then show ?thesis using assms by simp
next
  case (Register x)
  with assms(2) have pc: "wsHandler_pc s x = AtRegister"
    and s': "s' = s\<lparr>clients := clients_add x (clients s),
                   wsHandler_pc := (wsHandler_pc s)(x := AtWelcome)\<rparr>"
    by (auto split: if_splits)
  show ?thesis using assms(1) unfolding s'
    by (rule order_inv_same) (use pc in \<open>simp_all add: delivered_def read_from_def in_send_def\<close>)
next
  case (Welcome x ok)
  with assms(2) have pc: "wsHandler_pc s x = AtWelcome"
    and s': "s' = s\<lparr>writes := writes s @ [WriteMessage x TextMessage welcome_message ok WsHandler],
                   wsHandler_pc := (wsHandler_pc s)(x := (if ok then AtRead else AtDeferDelete))\<rparr>"
    by (auto split: if_splits)
  show ?thesis using assms(1) unfolding s'
    by (rule order_inv_same) (use pc in \<open>simp_all add: delivered_def read_from_def in_send_def\<close>)
next
  case (Read x rd)
  show ?thesis
  proof (cases rd)
    case None
    with Read assms(2) have pc: "wsHandler_pc s x = AtRead"
      and s': "s' = s\<lparr>wsHandler_pc := (wsHandler_pc s)(x := AtDeferDelete)\<rparr>"
      by (auto split: if_splits)
    show ?thesis using assms(1) unfolding s'
      by (rule order_inv_same) (use pc in \<open>simp_all add: delivered_def read_from_def in_send_def\<close>)
  next
    case (Some tm)
    obtain t message where tm: "tm = (t, message)" by (cases tm)
    with Some Read assms(2) have pc: "wsHandler_pc s x = AtRead"
      and s': "s' = s\<lparr>reads := reads s @ [(x, message)],
                     wsHandler_pc := (wsHandler_pc s)(x := AtSend message)\<rparr>"
      by (auto split: if_splits)
    show ?thesis
    proof (cases "x = a")
      case False
      show ?thesis using assms(1) unfolding s'
        by (rule order_inv_same)
          (use pc False in \<open>simp_all add: delivered_def read_from_def in_send_def\<close>)
    next
      case True
      from assms(1) obtain "done" where
        rd: "read_from s a = done @ in_broadcast s a @ in_send s a"
        and c: "order_cond (handleBroadcast_pc s) a r (delivered s a r) done"
        unfolding order_inv_def by blast
      have "in_send s a = []" using pc True by (simp add: in_send_def)
      then have "read_from s' a = done @ in_broadcast s' a @ in_send s' a"
        using rd True unfolding s' by (simp add: read_from_def in_broadcast_def in_send_def)
      moreover have "order_cond (handleBroadcast_pc s') a r (delivered s' a r) done"
        using c unfolding s' by (simp add: delivered_def)
      ultimately show ?thesis unfolding order_inv_def by blast
    qed
  qed
next
  case (Send x)
  with assms(2) obtain message where pc: "wsHandler_pc s x = AtSend message"
    and bp: "handleBroadcast_pc s = BRecv"
    and s': "s' = s\<lparr>wsHandler_pc := (wsHandler_pc s)(x := AtRead),
                        handleBroadcast_pc := BLock x message\<rparr>"
    by (auto split: if_splits hpc.splits)
  from assms(1) obtain "done" where
    rd: "read_from s a = done @ in_broadcast s a @ in_send s a"
    and c: "order_cond (handleBroadcast_pc s) a r (delivered s a r) done"
    unfolding order_inv_def by blast
  have "read_from s' a = done @ in_broadcast s' a @ in_send s' a"
    using rd pc bp unfolding s'
    by (cases "x = a") (simp_all add: read_from_def in_broadcast_def in_send_def)
  moreover have "order_cond (handleBroadcast_pc s') a r (delivered s' a r) done"
    using c bp unfolding s' by (simp add: delivered_def order_cond_def)
  ultimately show ?thesis unfolding order_inv_def by blast
next
  case (DeferDelete x)
  with assms(2) have pc: "wsHandler_pc s x = AtDeferDelete"
    and s': "s' = s\<lparr>clients := clients_delete x (clients s),
                   wsHandler_pc := (wsHandler_pc s)(x := AtDeferClose)\<rparr>"
    by (auto split: if_splits)
  show ?thesis using assms(1) unfolding s'
    by (rule order_inv_same) (use pc in \<open>simp_all add: delivered_def read_from_def in_send_def\<close>)
next
  case (DeferClose x)
  with assms(2) have pc: "wsHandler_pc s x = AtDeferClose"
    and s': "s' = s\<lparr>closes := closes s @ [(x, WsHandler)],
                   wsHandler_pc := (wsHandler_pc s)(x := Returned)\<rparr>"
    by (auto split: if_splits)
  show ?thesis using assms(1) unfolding s'
    by (rule order_inv_same) (use pc in \<open>simp_all add: delivered_def read_from_def in_send_def\<close>)
next
  case (BroadcastLock ks)
  with assms(2) obtain sender message where bp: "handleBroadcast_pc s = BLock sender message"
    and ro: "range_order (clients s) ks"
    and s': "s' = s\<lparr>mutex := True, handleBroadcast_pc := BRange sender message ks\<rparr>"
    by (auto split: if_splits bpc.splits)
  from assms(1) obtain "done" where
    rd: "read_from s a = done @ in_broadcast s a @ in_send s a"
    and c: "order_cond (handleBroadcast_pc s) a r (delivered s a r) done"
    unfolding order_inv_def by blast
  have "read_from s' a = done @ in_broadcast s' a @ in_send s' a"
    using rd bp unfolding s' by (simp add: read_from_def in_broadcast_def in_send_def)
  moreover have "order_cond (handleBroadcast_pc s') a r (delivered s' a r) done"
    using c bp ro unfolding s'
    by (simp add: delivered_def order_cond_def range_order_def subseq_rev_drop_many)
  ultimately show ?thesis unfolding order_inv_def by blast
next
  case (BroadcastClient ok)
  with assms(2) obtain sender message client ks where
    bp: "handleBroadcast_pc s = BRange sender message (client # ks)"
    and s': "s' = (if client \<in> dom (clients s) then broadcast_client sender message client ok s else s)
                  \<lparr>handleBroadcast_pc := BRange sender message ks\<rparr>"
    by (auto split: bpc.splits list.splits)
  show ?thesis unfolding s' using assms(1) bp by (rule order_inv_broadcast_client)
next
  case BroadcastUnlock
  with assms(2) obtain sender message where bp: "handleBroadcast_pc s = BRange sender message []"
    and s': "s' = s\<lparr>mutex := False, handleBroadcast_pc := BRecv\<rparr>"
    by (auto split: bpc.splits list.splits)
  from assms(1) obtain "done" where
    rd: "read_from s a = done @ in_broadcast s a @ in_send s a"
    and c: "order_cond (handleBroadcast_pc s) a r (delivered s a r) done"
    unfolding order_inv_def by blast
  let ?done = "done @ in_broadcast s a"
  have "read_from s' a = ?done @ in_broadcast s' a @ in_send s' a"
    using rd bp unfolding s' by (simp add: read_from_def in_broadcast_def in_send_def)
  moreover have "order_cond (handleBroadcast_pc s') a r (delivered s' a r) ?done"
    using c bp unfolding s'
    by (simp add: delivered_def order_cond_def in_broadcast_def split: if_splits)
  ultimately show ?thesis unfolding order_inv_def by blast
next
  case Tick
  with assms(2) have s': "s' = s\<lparr>keepAlive_pc := KLock\<rparr>"
    by (auto split: if_splits)
  show ?thesis using assms(1) unfolding s'
    by (rule order_inv_same) (simp_all add: delivered_def read_from_def in_send_def)
next
  case (KeepAliveLock ks)
  with assms(2) have s': "s' = s\<lparr>mutex := True, keepAlive_pc := KRange ks\<rparr>"
    by (auto split: if_splits)
  show ?thesis using assms(1) unfolding s'
    by (rule order_inv_same) (simp_all add: delivered_def read_from_def in_send_def)
next
  case (KeepAliveClient ok)
  with assms(2) obtain client ks where
    s': "s' = (if client \<in> dom (clients s) then keepAlive_client client ok s else s)
                  \<lparr>keepAlive_pc := KRange ks\<rparr>"
    by (auto split: kpc.splits list.splits)
  show ?thesis using assms(1) unfolding s'
    by (rule order_inv_same)
      (simp_all add: delivered_def read_from_def in_send_def keepAlive_client_def)
next
  case KeepAliveUnlock
  with assms(2) have s': "s' = s\<lparr>mutex := False, keepAlive_pc := KTick\<rparr>"
    by (auto split: kpc.splits list.splits)
  show ?thesis using assms(1) unfolding s'
    by (rule order_inv_same) (simp_all add: delivered_def read_from_def in_send_def)
qed

lemma reachable_order_inv: "reachable s \<Longrightarrow> order_inv s a r"
  by (induction rule: reachable.induct) (auto intro: order_inv_init order_inv_step)

lemma order_inv_subseq:
  assumes "order_inv s a r"
  shows "subseq (delivered s a r) (read_from s a)"
proof -
  from assms obtain "done" where
    rd: "read_from s a = done @ in_broadcast s a @ in_send s a"
    and c: "order_cond (handleBroadcast_pc s) a r (delivered s a r) done"
    unfolding order_inv_def by blast
  have "subseq (delivered s a r) (done @ in_broadcast s a)"
    using c
    by (cases "handleBroadcast_pc s")
      (auto simp: order_cond_def in_broadcast_def subseq_rev_drop_many split: if_splits)
  then have "subseq (delivered s a r) ((done @ in_broadcast s a) @ in_send s a)"
    by (rule subseq_rev_drop_many)
  then show ?thesis using rd by simp
qed

lemma subseq_set: "subseq xs ys \<Longrightarrow> set xs \<subseteq> set ys"
  by (induction rule: list_emb.induct) auto

lemma subseq_two:
  assumes "subseq ds (xs @ m1 # ys @ m2 # zs)" and "distinct (xs @ m1 # ys @ m2 # zs)"
    and "m1 \<in> set ds" and "m2 \<in> set ds"
  shows "\<exists>us vs ws. ds = us @ m1 # vs @ m2 # ws"
proof -
  have "subseq ds ((xs @ m1 # ys) @ (m2 # zs))" using assms(1) by simp
  then obtain d1 d2 where ds: "ds = d1 @ d2" and s1: "subseq d1 (xs @ m1 # ys)"
    and s2: "subseq d2 (m2 # zs)"
    by (rule subseq_appendE)
  have "m1 \<notin> set (m2 # zs)" using assms(2) by auto
  then have "m1 \<notin> set d2" using subseq_set [OF s2] by blast
  then have "m1 \<in> set d1" using assms(3) ds by simp
  then obtain us v1 where d1: "d1 = us @ m1 # v1"
    using split_list [of m1 d1] by blast
  have "m2 \<notin> set (xs @ m1 # ys)" using assms(2) by auto
  then have "m2 \<notin> set d1" using subseq_set [OF s1] by blast
  then have "m2 \<in> set d2" using assms(4) ds by simp
  then obtain v2 ws where d2: "d2 = v2 @ m2 # ws"
    using split_list [of m2 d2] by blast
  have "ds = us @ m1 # (v1 @ v2) @ m2 # ws" using ds d1 d2 by simp
  then show ?thesis by blast
qed

text \<open>
  Claim C5. In every reachable state, for every sender \<open>A\<close> and recipient \<open>R\<close>, the messages
  of \<open>A\<close> that \<open>handleBroadcast\<close> has delivered to \<open>R\<close> are, in the order of delivery, a
  subsequence of the messages read from \<open>A\<close> in the order they were read. In particular,
  when the messages read from \<open>A\<close> are all different, \<open>M1\<close> was read before \<open>M2\<close> and \<open>R\<close> was
  delivered both, then \<open>R\<close> was delivered \<open>M1\<close> before \<open>M2\<close>.
\<close>

theorem per_sender_order:
  assumes "reachable s"
  shows "subseq (delivered s A R) (read_from s A)
   \<and> (\<forall>xs M1 ys M2 zs.
         read_from s A = xs @ M1 # ys @ M2 # zs \<and> distinct (read_from s A)
         \<and> M1 \<in> set (delivered s A R) \<and> M2 \<in> set (delivered s A R) \<longrightarrow>
         (\<exists>us vs ws. delivered s A R = us @ M1 # vs @ M2 # ws))"
proof -
  have sub: "subseq (delivered s A R) (read_from s A)"
    using assms by (intro order_inv_subseq reachable_order_inv)
  have "\<exists>us vs ws. delivered s A R = us @ M1 # vs @ M2 # ws"
    if "read_from s A = xs @ M1 # ys @ M2 # zs" and "distinct (read_from s A)"
      and "M1 \<in> set (delivered s A R)" and "M2 \<in> set (delivered s A R)"
    for xs M1 ys M2 zs
  proof -
    have "subseq (delivered s A R) (xs @ M1 # ys @ M2 # zs)"
      and "distinct (xs @ M1 # ys @ M2 # zs)"
      using sub that(1,2) by simp_all
    then show ?thesis using that(3,4) by (rule subseq_two)
  qed
  then have "\<forall>xs M1 ys M2 zs.
         read_from s A = xs @ M1 # ys @ M2 # zs \<and> distinct (read_from s A)
         \<and> M1 \<in> set (delivered s A R) \<and> M2 \<in> set (delivered s A R) \<longrightarrow>
         (\<exists>us vs ws. delivered s A R = us @ M1 # vs @ M2 # ws)"
    by blast
  with sub show ?thesis by (rule conjI)
qed

theorem per_sender_order_witness:
  "reachable (state_after two_messages_run)
   \<and> read_from (state_after two_messages_run) 1 = [] @ ''a'' # [] @ ''b'' # []
   \<and> distinct (read_from (state_after two_messages_run) 1)
   \<and> ''a'' \<in> set (delivered (state_after two_messages_run) 1 2)
   \<and> ''b'' \<in> set (delivered (state_after two_messages_run) 1 2)
   \<and> delivered (state_after two_messages_run) 1 2 = [''a'', ''b'']
   \<and> subseq (delivered (state_after two_messages_run) 1 2)
        (read_from (state_after two_messages_run) 1)"
proof -
  have r: "read_from (state_after two_messages_run) 1 = [''a'', ''b'']"
    and d: "delivered (state_after two_messages_run) 1 2 = [''a'', ''b'']"
    by (simp_all add: state_after_def run_two_messages delivered_def read_from_def)
  show ?thesis
    using per_sender_order [OF reachable_state_after, of two_messages_run 1 2]
      reachable_state_after [of two_messages_run]
    unfolding r d by simp
qed

section \<open>The handler\<close>

lemma handler_inv_init: "handler_inv init_server c"
  by (simp add: handler_inv_def init_server_def welcomes_def read_from_def)

lemma handler_inv_same:
  assumes "handler_inv s c" and "welcomes s' c = welcomes s c"
    and "read_from s' c = read_from s c" and "wsHandler_pc s' c = wsHandler_pc s c"
  shows "handler_inv s' c"
  using assms(1) unfolding handler_inv_def assms(2-4) .

lemma handler_inv_step:
  assumes "handler_inv s c" and "step s e = Some s'"
  shows "handler_inv s' c"
proof (cases e)
  case (Upgrade x)
  with assms(2) have pc: "wsHandler_pc s x = NotStarted"
    and s': "s' = s\<lparr>wsHandler_pc := (wsHandler_pc s)(x := AtRegister)\<rparr>"
    by (auto split: if_splits)
  show ?thesis
  proof (cases "c = x")
    case False
    show ?thesis using assms(1) unfolding s'
      by (rule handler_inv_same) (use False in \<open>simp_all add: welcomes_def read_from_def\<close>)
  next
    case True
    show ?thesis unfolding s' using assms(1) pc True
      by (simp add: handler_inv_def welcomes_def read_from_def)
  qed
next
  case UpgradeError
  then show ?thesis using assms by simp
next
  case (Register x)
  with assms(2) have pc: "wsHandler_pc s x = AtRegister"
    and s': "s' = s\<lparr>clients := clients_add x (clients s),
                   wsHandler_pc := (wsHandler_pc s)(x := AtWelcome)\<rparr>"
    by (auto split: if_splits)
  show ?thesis
  proof (cases "c = x")
    case False
    show ?thesis using assms(1) unfolding s'
      by (rule handler_inv_same) (use False in \<open>simp_all add: welcomes_def read_from_def\<close>)
  next
    case True
    show ?thesis unfolding s' using assms(1) pc True
      by (simp add: handler_inv_def welcomes_def read_from_def)
  qed
next
  case (Welcome x ok)
  with assms(2) have pc: "wsHandler_pc s x = AtWelcome"
    and s': "s' = s\<lparr>writes := writes s @ [WriteMessage x TextMessage welcome_message ok WsHandler],
                   wsHandler_pc := (wsHandler_pc s)(x := (if ok then AtRead else AtDeferDelete))\<rparr>"
    by (auto split: if_splits)
  show ?thesis
  proof (cases "c = x")
    case False
    show ?thesis using assms(1) unfolding s'
      by (rule handler_inv_same) (use False in \<open>simp_all add: welcomes_def read_from_def\<close>)
  next
    case True
    show ?thesis unfolding s' using assms(1) pc True
      by (simp add: handler_inv_def welcomes_def read_from_def)
  qed
next
  case (Read x rd)
  show ?thesis
  proof (cases rd)
    case None
    with Read assms(2) have pc: "wsHandler_pc s x = AtRead"
      and s': "s' = s\<lparr>wsHandler_pc := (wsHandler_pc s)(x := AtDeferDelete)\<rparr>"
      by (auto split: if_splits)
    show ?thesis
    proof (cases "c = x")
      case False
      show ?thesis using assms(1) unfolding s'
        by (rule handler_inv_same) (use False in \<open>simp_all add: welcomes_def read_from_def\<close>)
    next
      case True
      show ?thesis unfolding s' using assms(1) pc True
        by (simp add: handler_inv_def welcomes_def read_from_def)
    qed
  next
    case (Some tm)
    obtain t message where tm: "tm = (t, message)" by (cases tm)
    with Some Read assms(2) have pc: "wsHandler_pc s x = AtRead"
      and s': "s' = s\<lparr>reads := reads s @ [(x, message)],
                     wsHandler_pc := (wsHandler_pc s)(x := AtSend message)\<rparr>"
      by (auto split: if_splits)
    show ?thesis
    proof (cases "c = x")
      case False
      show ?thesis using assms(1) unfolding s'
        by (rule handler_inv_same) (use False in \<open>simp_all add: welcomes_def read_from_def\<close>)
    next
      case True
      show ?thesis unfolding s' using assms(1) pc True
        by (simp add: handler_inv_def welcomes_def read_from_def)
    qed
  qed
next
  case (Send x)
  with assms(2) obtain message where pc: "wsHandler_pc s x = AtSend message"
    and s': "s' = s\<lparr>wsHandler_pc := (wsHandler_pc s)(x := AtRead),
                        handleBroadcast_pc := BLock x message\<rparr>"
    by (auto split: if_splits hpc.splits)
  show ?thesis
  proof (cases "c = x")
    case False
    show ?thesis using assms(1) unfolding s'
      by (rule handler_inv_same) (use False in \<open>simp_all add: welcomes_def read_from_def\<close>)
  next
    case True
    show ?thesis unfolding s' using assms(1) pc True
      by (simp add: handler_inv_def welcomes_def read_from_def)
  qed
next
  case (DeferDelete x)
  with assms(2) have pc: "wsHandler_pc s x = AtDeferDelete"
    and s': "s' = s\<lparr>clients := clients_delete x (clients s),
                   wsHandler_pc := (wsHandler_pc s)(x := AtDeferClose)\<rparr>"
    by (auto split: if_splits)
  show ?thesis
  proof (cases "c = x")
    case False
    show ?thesis using assms(1) unfolding s'
      by (rule handler_inv_same) (use False in \<open>simp_all add: welcomes_def read_from_def\<close>)
  next
    case True
    show ?thesis unfolding s' using assms(1) pc True
      by (simp add: handler_inv_def welcomes_def read_from_def)
  qed
next
  case (DeferClose x)
  with assms(2) have pc: "wsHandler_pc s x = AtDeferClose"
    and s': "s' = s\<lparr>closes := closes s @ [(x, WsHandler)],
                   wsHandler_pc := (wsHandler_pc s)(x := Returned)\<rparr>"
    by (auto split: if_splits)
  show ?thesis
  proof (cases "c = x")
    case False
    show ?thesis using assms(1) unfolding s'
      by (rule handler_inv_same) (use False in \<open>simp_all add: welcomes_def read_from_def\<close>)
  next
    case True
    show ?thesis unfolding s' using assms(1) pc True
      by (simp add: handler_inv_def welcomes_def read_from_def)
  qed
next
  case (BroadcastLock ks)
  with assms(2) obtain sender message where
    s': "s' = s\<lparr>mutex := True, handleBroadcast_pc := BRange sender message ks\<rparr>"
    by (auto split: if_splits bpc.splits)
  show ?thesis using assms(1) unfolding s'
    by (rule handler_inv_same) (simp_all add: welcomes_def read_from_def)
next
  case (BroadcastClient ok)
  with assms(2) obtain sender message client ks where
    s': "s' = (if client \<in> dom (clients s) then broadcast_client sender message client ok s else s)
                  \<lparr>handleBroadcast_pc := BRange sender message ks\<rparr>"
    by (auto split: bpc.splits list.splits)
  show ?thesis using assms(1) unfolding s'
    by (rule handler_inv_same) (simp_all add: welcomes_def read_from_def broadcast_client_def)
next
  case BroadcastUnlock
  with assms(2) have s': "s' = s\<lparr>mutex := False, handleBroadcast_pc := BRecv\<rparr>"
    by (auto split: bpc.splits list.splits)
  show ?thesis using assms(1) unfolding s'
    by (rule handler_inv_same) (simp_all add: welcomes_def read_from_def)
next
  case Tick
  with assms(2) have s': "s' = s\<lparr>keepAlive_pc := KLock\<rparr>"
    by (auto split: if_splits)
  show ?thesis using assms(1) unfolding s'
    by (rule handler_inv_same) (simp_all add: welcomes_def read_from_def)
next
  case (KeepAliveLock ks)
  with assms(2) have s': "s' = s\<lparr>mutex := True, keepAlive_pc := KRange ks\<rparr>"
    by (auto split: if_splits)
  show ?thesis using assms(1) unfolding s'
    by (rule handler_inv_same) (simp_all add: welcomes_def read_from_def)
next
  case (KeepAliveClient ok)
  with assms(2) obtain client ks where
    s': "s' = (if client \<in> dom (clients s) then keepAlive_client client ok s else s)
                  \<lparr>keepAlive_pc := KRange ks\<rparr>"
    by (auto split: kpc.splits list.splits)
  show ?thesis using assms(1) unfolding s'
    by (rule handler_inv_same) (simp_all add: welcomes_def read_from_def keepAlive_client_def)
next
  case KeepAliveUnlock
  with assms(2) have s': "s' = s\<lparr>mutex := False, keepAlive_pc := KTick\<rparr>"
    by (auto split: kpc.splits list.splits)
  show ?thesis using assms(1) unfolding s'
    by (rule handler_inv_same) (simp_all add: welcomes_def read_from_def)
qed

lemma reachable_handler_inv: "reachable s \<Longrightarrow> handler_inv s c"
  by (induction rule: reachable.induct) (auto intro: handler_inv_init handler_inv_step)

lemma step_writes:
  assumes "step s e = Some s'"
  shows "\<exists>new. writes s' = writes s @ new \<and> list_all write_ok new"
proof (cases e)
  case (Welcome x ok)
  with assms have
    s': "s' = s\<lparr>writes := writes s @ [WriteMessage x TextMessage welcome_message ok WsHandler],
                   wsHandler_pc := (wsHandler_pc s)(x := (if ok then AtRead else AtDeferDelete))\<rparr>"
    by (auto split: if_splits)
  show ?thesis unfolding s' by (simp add: write_ok_def)
next
  case (BroadcastClient ok)
  with assms obtain sender message client ks where
    s': "s' = (if client \<in> dom (clients s) then broadcast_client sender message client ok s else s)
                  \<lparr>handleBroadcast_pc := BRange sender message ks\<rparr>"
    by (auto split: bpc.splits list.splits)
  show ?thesis unfolding s' by (simp add: broadcast_client_def write_ok_def)
next
  case (KeepAliveClient ok)
  with assms obtain client ks where
    s': "s' = (if client \<in> dom (clients s) then keepAlive_client client ok s else s)
                  \<lparr>keepAlive_pc := KRange ks\<rparr>"
    by (auto split: kpc.splits list.splits)
  show ?thesis unfolding s' by (simp add: keepAlive_client_def write_ok_def)
qed (use assms in \<open>auto split: if_splits option.splits hpc.splits bpc.splits kpc.splits list.splits\<close>)

lemma reachable_writes_ok: "reachable s \<Longrightarrow> list_all write_ok (writes s)"
proof (induction rule: reachable.induct)
  case reach_init
  show ?case by (simp add: init_server_def)
next
  case (reach_step s e s')
  from step_writes [OF reach_step.hyps(2)] obtain new
    where "writes s' = writes s @ new" and "list_all write_ok new" by blast
  with reach_step.IH show ?case by simp
qed

text \<open>
  Claim C6. In every reachable state: a handler that has not reached line 53 yet has
  written nothing to its connection; a handler that is past line 53 has made exactly one
  write to its connection, of the bytes \<open>Welcome to the WebSocket server!\<close> as a text
  message, the same for every connection. And right after the registration of line 48 the
  handler stands before that write: the write is the only step it can take.
\<close>

theorem welcome_once:
  assumes "reachable s"
  shows "(wsHandler_pc s c \<in> {NotStarted, AtRegister, AtWelcome} \<longrightarrow> welcomes s c = [])
   \<and> (wsHandler_pc s c \<notin> {NotStarted, AtRegister, AtWelcome} \<longrightarrow>
        (\<exists>ok. welcomes s c =
           [WriteMessage c TextMessage ''Welcome to the WebSocket server!'' ok WsHandler]))
   \<and> (\<forall>s'. step s (Register c) = Some s' \<longrightarrow>
         c \<in> dom (clients s') \<and> wsHandler_pc s' c = AtWelcome
         \<and> (\<forall>ok. step s' (Welcome c ok) \<noteq> None)
         \<and> (\<forall>r. step s' (Read c r) = None) \<and> step s' (Send c) = None
         \<and> step s' (DeferDelete c) = None \<and> step s' (DeferClose c) = None)"
proof -
  have inv: "handler_inv s c" using assms by (rule reachable_handler_inv)
  have 1: "wsHandler_pc s c \<in> {NotStarted, AtRegister, AtWelcome} \<longrightarrow> welcomes s c = []"
    using inv by (cases "wsHandler_pc s c") (simp_all add: handler_inv_def)
  have 2: "wsHandler_pc s c \<notin> {NotStarted, AtRegister, AtWelcome} \<longrightarrow>
        (\<exists>ok. welcomes s c =
           [WriteMessage c TextMessage ''Welcome to the WebSocket server!'' ok WsHandler])"
    using inv
    by (cases "wsHandler_pc s c") (auto simp: handler_inv_def welcome_message_def)
  have 3: "c \<in> dom (clients s') \<and> wsHandler_pc s' c = AtWelcome
         \<and> (\<forall>ok. step s' (Welcome c ok) \<noteq> None)
         \<and> (\<forall>r. step s' (Read c r) = None) \<and> step s' (Send c) = None
         \<and> step s' (DeferDelete c) = None \<and> step s' (DeferClose c) = None"
    if "step s (Register c) = Some s'" for s'
  proof -
    from that have
      s': "s' = s\<lparr>clients := clients_add c (clients s),
                   wsHandler_pc := (wsHandler_pc s)(c := AtWelcome)\<rparr>"
      by (auto split: if_splits)
    show ?thesis unfolding s' by (simp add: clients_add_def)
  qed
  show ?thesis using 1 2 3 by blast
qed

theorem welcome_once_witness:
  "reachable (state_after two_messages_run)
   \<and> wsHandler_pc (state_after two_messages_run) 2 \<notin> {NotStarted, AtRegister, AtWelcome}
   \<and> welcomes (state_after two_messages_run) 2 =
       [WriteMessage 2 TextMessage ''Welcome to the WebSocket server!'' True WsHandler]
   \<and> wsHandler_pc (state_after two_messages_run) 3 \<in> {NotStarted, AtRegister, AtWelcome}
   \<and> welcomes (state_after two_messages_run) 3 = []
   \<and> step (state_after [Upgrade 1]) (Register 1) = Some (state_after [Upgrade 1, Register 1])
   \<and> wsHandler_pc (state_after [Upgrade 1, Register 1]) 1 = AtWelcome"
proof -
  have s: "state_after two_messages_run =
     \<lparr>clients = [1 \<mapsto> True, 2 \<mapsto> True], mutex = False,
       wsHandler_pc = (\<lambda>_. NotStarted)(1 := AtRead, 2 := AtRead),
       handleBroadcast_pc = BRecv, keepAlive_pc = KTick,
       writes = [WriteMessage 1 TextMessage welcome_message True WsHandler,
                 WriteMessage 2 TextMessage welcome_message True WsHandler,
                 WriteMessage 2 TextMessage ''a'' True (HandleBroadcast 1),
                 WriteMessage 2 TextMessage ''b'' True (HandleBroadcast 1)],
       closes = [],
       reads = [(1, ''a''), (1, ''b'')]\<rparr>"
    by (simp add: state_after_def run_two_messages)
  have p2: "wsHandler_pc (state_after two_messages_run) 2 \<notin> {NotStarted, AtRegister, AtWelcome}"
    and p3: "wsHandler_pc (state_after two_messages_run) 3 \<in> {NotStarted, AtRegister, AtWelcome}"
    unfolding s by simp_all
  have w2: "welcomes (state_after two_messages_run) 2 =
       [WriteMessage 2 TextMessage welcome_message True WsHandler]"
    unfolding s by (simp add: welcomes_def)
  have u: "step (state_after [Upgrade 1]) (Register 1) = Some (state_after [Upgrade 1, Register 1])"
    by (simp add: state_after_def init_server_def)
  note t2 = welcome_once [OF reachable_state_after, of two_messages_run 2]
  note t3 = welcome_once [OF reachable_state_after, of two_messages_run 3]
  note t1 = welcome_once [OF reachable_state_after, of "[Upgrade 1]" 1]
  from t2 p2 have "\<exists>ok. welcomes (state_after two_messages_run) 2 =
           [WriteMessage 2 TextMessage ''Welcome to the WebSocket server!'' ok WsHandler]"
    by blast
  then have a: "welcomes (state_after two_messages_run) 2 =
       [WriteMessage 2 TextMessage ''Welcome to the WebSocket server!'' True WsHandler]"
    unfolding w2 by blast
  from t3 p3 have b: "welcomes (state_after two_messages_run) 3 = []"
    by blast
  from t1 u have c: "wsHandler_pc (state_after [Upgrade 1, Register 1]) 1 = AtWelcome"
    by blast
  show ?thesis
    using reachable_state_after [of two_messages_run] p2 p3 a b c u
    by blast
qed

text \<open>
  Claim C9. When the welcome write fails, the handler goes to its deferred function: it can
  neither read nor send; and as soon as the mutex is free the deferred function deletes
  the connection from \<open>clients\<close> and closes it, and the handler has returned without having
  read anything. Whatever the other goroutines do meanwhile: in every reachable state where
  the welcome write of \<open>c\<close> has failed, nothing was read from \<open>c\<close>, the handler is in its
  deferred function or has returned, its next step can be taken, and once it has returned
  \<open>c\<close> is not registered and the handler has closed it.
\<close>

theorem welcome_failure_cleanup:
  "(wsHandler_pc s c = AtWelcome \<and> \<not> mutex s \<longrightarrow>
      (\<exists>s1 s2 s3. step s (Welcome c False) = Some s1 \<and> wsHandler_pc s1 c = AtDeferDelete
         \<and> (\<forall>r. step s1 (Read c r) = None) \<and> step s1 (Send c) = None
         \<and> step s1 (DeferDelete c) = Some s2 \<and> step s2 (DeferClose c) = Some s3
         \<and> c \<notin> dom (clients s3) \<and> closes s3 = closes s @ [(c, WsHandler)]
         \<and> wsHandler_pc s3 c = Returned \<and> reads s3 = reads s))
   \<and> (reachable s \<and> WriteMessage c TextMessage welcome_message False WsHandler \<in> set (writes s) \<longrightarrow>
         read_from s c = []
         \<and> wsHandler_pc s c \<in> {AtDeferDelete, AtDeferClose, Returned}
         \<and> (wsHandler_pc s c = AtDeferDelete \<and> \<not> mutex s \<longrightarrow> step s (DeferDelete c) \<noteq> None)
         \<and> (wsHandler_pc s c = AtDeferClose \<longrightarrow> c \<notin> dom (clients s) \<and> step s (DeferClose c) \<noteq> None)
         \<and> (wsHandler_pc s c = Returned \<longrightarrow> c \<notin> dom (clients s) \<and> (c, WsHandler) \<in> set (closes s)))"
proof -
  have A: "\<exists>s1 s2 s3. step s (Welcome c False) = Some s1 \<and> wsHandler_pc s1 c = AtDeferDelete
         \<and> (\<forall>r. step s1 (Read c r) = None) \<and> step s1 (Send c) = None
         \<and> step s1 (DeferDelete c) = Some s2 \<and> step s2 (DeferClose c) = Some s3
         \<and> c \<notin> dom (clients s3) \<and> closes s3 = closes s @ [(c, WsHandler)]
         \<and> wsHandler_pc s3 c = Returned \<and> reads s3 = reads s"
    if pc: "wsHandler_pc s c = AtWelcome" and mx: "\<not> mutex s"
  proof -
    let ?s1 = "s\<lparr>writes := writes s @ [WriteMessage c TextMessage welcome_message False WsHandler],
                   wsHandler_pc := (wsHandler_pc s)(c := AtDeferDelete)\<rparr>"
    let ?s2 = "?s1\<lparr>clients := clients_delete c (clients ?s1),
                   wsHandler_pc := (wsHandler_pc ?s1)(c := AtDeferClose)\<rparr>"
    let ?s3 = "?s2\<lparr>closes := closes ?s2 @ [(c, WsHandler)],
                   wsHandler_pc := (wsHandler_pc ?s2)(c := Returned)\<rparr>"
    have 1: "step s (Welcome c False) = Some ?s1" using pc by simp
    have 2: "step ?s1 (DeferDelete c) = Some ?s2" using mx by simp
    have 3: "step ?s2 (DeferClose c) = Some ?s3" by simp
    have 4: "wsHandler_pc ?s1 c = AtDeferDelete" "\<forall>r. step ?s1 (Read c r) = None"
      "step ?s1 (Send c) = None" by simp_all
    have 5: "c \<notin> dom (clients ?s3)" "closes ?s3 = closes s @ [(c, WsHandler)]"
      "wsHandler_pc ?s3 c = Returned" "reads ?s3 = reads s"
      by (simp_all add: clients_delete_def)
    show ?thesis using 1 2 3 4 5 by blast
  qed
  have B: "read_from s c = []
         \<and> wsHandler_pc s c \<in> {AtDeferDelete, AtDeferClose, Returned}
         \<and> (wsHandler_pc s c = AtDeferDelete \<and> \<not> mutex s \<longrightarrow> step s (DeferDelete c) \<noteq> None)
         \<and> (wsHandler_pc s c = AtDeferClose \<longrightarrow> c \<notin> dom (clients s) \<and> step s (DeferClose c) \<noteq> None)
         \<and> (wsHandler_pc s c = Returned \<longrightarrow> c \<notin> dom (clients s) \<and> (c, WsHandler) \<in> set (closes s))"
    if r: "reachable s"
      and w: "WriteMessage c TextMessage welcome_message False WsHandler \<in> set (writes s)"
  proof -
    have hi: "handler_inv s c" using r by (rule reachable_handler_inv)
    have ci: "cleanup_inv s c" using r by (rule reachable_cleanup_inv)
    have m: "WriteMessage c TextMessage welcome_message False WsHandler \<in> set (welcomes s c)"
      using w by (simp add: welcomes_def)
    have 1: "read_from s c = [] \<and> wsHandler_pc s c \<in> {AtDeferDelete, AtDeferClose, Returned}"
      using hi m by (cases "wsHandler_pc s c") (auto simp: handler_inv_def)
    have 2: "wsHandler_pc s c = AtDeferDelete \<and> \<not> mutex s \<longrightarrow> step s (DeferDelete c) \<noteq> None"
      by simp
    have 3: "wsHandler_pc s c = AtDeferClose \<longrightarrow> c \<notin> dom (clients s) \<and> step s (DeferClose c) \<noteq> None"
      using ci by (simp add: cleanup_inv_def domIff)
    have 4: "wsHandler_pc s c = Returned \<longrightarrow> c \<notin> dom (clients s) \<and> (c, WsHandler) \<in> set (closes s)"
    proof
      assume p: "wsHandler_pc s c = Returned"
      then have n: "clients s c = None"
        and f: "filter (\<lambda>b. b = WsHandler) (close_calls s c) = [WsHandler]"
        using ci by (simp_all add: cleanup_inv_def)
      have "WsHandler \<in> set (filter (\<lambda>b. b = WsHandler) (close_calls s c))"
        unfolding f by simp
      then have "WsHandler \<in> set (close_calls s c)" by simp
      then have "(c, WsHandler) \<in> set (closes s)"
        by (auto simp: close_calls_def)
      with n show "c \<notin> dom (clients s) \<and> (c, WsHandler) \<in> set (closes s)"
        by (simp add: domIff)
    qed
    show ?thesis using 1 2 3 4 by blast
  qed
  show ?thesis using A B by blast
qed

theorem welcome_failure_cleanup_witness:
  "wsHandler_pc (state_after [Upgrade 1, Register 1]) 1 = AtWelcome
   \<and> \<not> mutex (state_after [Upgrade 1, Register 1])
   \<and> run (state_after [Upgrade 1, Register 1]) [Welcome 1 False, DeferDelete 1, DeferClose 1] =
       run init_server welcome_failure_run
   \<and> reachable (state_after welcome_failure_run)
   \<and> WriteMessage 1 TextMessage welcome_message False WsHandler
       \<in> set (writes (state_after welcome_failure_run))
   \<and> wsHandler_pc (state_after welcome_failure_run) 1 = Returned
   \<and> 1 \<notin> dom (clients (state_after welcome_failure_run))
   \<and> closes (state_after welcome_failure_run) = [(1, WsHandler)]
   \<and> read_from (state_after welcome_failure_run) 1 = []"
proof -
  have a: "state_after [Upgrade 1, Register 1] =
      init_server\<lparr>clients := [1 \<mapsto> True], wsHandler_pc := (\<lambda>_. NotStarted)(1 := AtWelcome)\<rparr>"
    by (simp add: state_after_def init_server_def clients_add_def)
  have b: "run (state_after [Upgrade 1, Register 1]) [Welcome 1 False, DeferDelete 1, DeferClose 1] =
       run init_server welcome_failure_run"
    unfolding a run_welcome_failure
    by (simp add: init_server_def clients_delete_def)
  have c: "state_after welcome_failure_run =
     \<lparr>clients = Map.empty, mutex = False,
       wsHandler_pc = (\<lambda>_. NotStarted)(1 := Returned),
       handleBroadcast_pc = BRecv, keepAlive_pc = KTick,
       writes = [WriteMessage 1 TextMessage welcome_message False WsHandler],
       closes = [(1, WsHandler)],
       reads = []\<rparr>"
    by (simp add: state_after_def run_welcome_failure)
  have d: "wsHandler_pc (state_after [Upgrade 1, Register 1]) 1 = AtWelcome"
    "\<not> mutex (state_after [Upgrade 1, Register 1])"
    unfolding a by (simp_all add: init_server_def)
  have e: "WriteMessage 1 TextMessage welcome_message False WsHandler
       \<in> set (writes (state_after welcome_failure_run))"
    "wsHandler_pc (state_after welcome_failure_run) 1 = Returned"
    "1 \<notin> dom (clients (state_after welcome_failure_run))"
    "closes (state_after welcome_failure_run) = [(1, WsHandler)]"
    "read_from (state_after welcome_failure_run) 1 = []"
    unfolding c by (simp_all add: read_from_def)
  show ?thesis
    using welcome_failure_cleanup [of "state_after [Upgrade 1, Register 1]" 1]
      welcome_failure_cleanup [of "state_after welcome_failure_run" 1]
      reachable_state_after [of welcome_failure_run] b d e
    by blast
qed

text \<open>
  Claim C10. The handler keeps nothing of the type of a message it reads: a read of a
  binary frame (or of any type) leaves the server in the state a read of a text frame with
  the same bytes leaves it in. Every write of a turn of \<open>handleBroadcast\<close> is a text
  message, and in every reachable state every write \<open>handleBroadcast\<close> has made is a text
  message.
\<close>

theorem broadcast_always_text:
  "step s (Read c (Some (t, message))) = step s (Read c (Some (TextMessage, message)))
   \<and> (\<forall>w\<in>set (new_writes s (handleBroadcast wok ks sender message s)).
         w_type w = TextMessage)
   \<and> (reachable s \<longrightarrow>
        (\<forall>w\<in>set (writes s). \<forall>a. w_by w = HandleBroadcast a \<longrightarrow> w_type w = TextMessage))"
proof -
  have 1: "step s (Read c (Some (t, message))) = step s (Read c (Some (TextMessage, message)))"
    by simp
  have 2: "\<forall>w\<in>set (new_writes s (handleBroadcast wok ks sender message s)).
         w_type w = TextMessage"
    using handleBroadcast_new [of s wok ks sender message] by blast
  have 3: "\<forall>w\<in>set (writes s). \<forall>a. w_by w = HandleBroadcast a \<longrightarrow> w_type w = TextMessage"
    if "reachable s"
  proof (intro ballI allI impI)
    fix w a
    assume w: "w \<in> set (writes s)" and b: "w_by w = HandleBroadcast a"
    have "list_all write_ok (writes s)" using that by (rule reachable_writes_ok)
    then have "write_ok w" using w by (simp add: list_all_iff)
    then show "w_type w = TextMessage" using b by (simp add: write_ok_def)
  qed
  show ?thesis using 1 2 3 by blast
qed

theorem broadcast_always_text_witness:
  "step (state_after [Upgrade 1, Register 1, Welcome 1 True]) (Read 1 (Some (BinaryMessage, ''x'')))
     = step (state_after [Upgrade 1, Register 1, Welcome 1 True]) (Read 1 (Some (TextMessage, ''x'')))
   \<and> step (state_after [Upgrade 1, Register 1, Welcome 1 True]) (Read 1 (Some (BinaryMessage, ''x'')))
     \<noteq> None
   \<and> new_writes three_clients (handleBroadcast (\<lambda>_. True) [1, 2, 3] 1 ''x'' three_clients) =
       [WriteMessage 2 TextMessage ''x'' True (HandleBroadcast 1),
        WriteMessage 3 TextMessage ''x'' True (HandleBroadcast 1)]
   \<and> reachable (state_after binary_run)
   \<and> writes (state_after binary_run) =
       [WriteMessage 1 TextMessage welcome_message True WsHandler,
        WriteMessage 2 TextMessage welcome_message True WsHandler,
        WriteMessage 2 TextMessage ''x'' True (HandleBroadcast 1)]"
proof -
  let ?s = "state_after [Upgrade 1, Register 1, Welcome 1 True]"
  have e: "step ?s (Read 1 (Some (BinaryMessage, ''x''))) \<noteq> None"
    by (simp add: state_after_def init_server_def)
  have n: "new_writes three_clients (handleBroadcast (\<lambda>_. True) [1, 2, 3] 1 ''x'' three_clients) =
       [WriteMessage 2 TextMessage ''x'' True (HandleBroadcast 1),
        WriteMessage 3 TextMessage ''x'' True (HandleBroadcast 1)]"
    by (simp add: three_clients_def init_server_def handleBroadcast_def new_writes_def
        broadcast_client_def clients_delete_def)
  have w: "writes (state_after binary_run) =
       [WriteMessage 1 TextMessage welcome_message True WsHandler,
        WriteMessage 2 TextMessage welcome_message True WsHandler,
        WriteMessage 2 TextMessage ''x'' True (HandleBroadcast 1)]"
    by (simp add: state_after_def run_binary)
  note t1 = broadcast_always_text [of ?s 1 BinaryMessage "''x''" "\<lambda>_. True" "[1, 2, 3]" 1]
  note t2 = broadcast_always_text
    [of three_clients 1 BinaryMessage "''x''" "\<lambda>_. True" "[1, 2, 3]" 1]
  note t3 = broadcast_always_text
    [of "state_after binary_run" 1 BinaryMessage "''x''" "\<lambda>_. True" "[1, 2, 3]" 1]
  show ?thesis
    using t1 t2 t3 e n w reachable_state_after [of binary_run] by blast
qed

end
